theory Spec2Isabelle
  imports Complex_Main
begin

unbundle bit_operations_syntax

section \<open>Data model\<close>

text \<open>
  The Web Audio \<open>AudioBuffer\<close> as the analysis code reads it: the sample rate, the
  duration, and one sample array per channel. An \<open>AudioBuffer\<close> always has at least one
  channel, so channel 0 is a field of its own and \<open>getChannelData b 0\<close> cannot fail.
  Samples and all other JavaScript numbers are modelled as exact reals (no rounding to
  32 or 64 bits); array lengths and loop counters are naturals.
\<close>

record AudioBuffer =
  sampleRate :: real
  duration :: real
  channel0 :: "real list"
  otherChannels :: "real list list"

definition numberOfChannels :: "AudioBuffer \<Rightarrow> nat" where
  "numberOfChannels b = Suc (length (otherChannels b))"

definition getChannelData :: "AudioBuffer \<Rightarrow> nat \<Rightarrow> real list" where
  "getChannelData b c = (channel0 b # otherChannels b) ! c"

text \<open>
  The result of a JavaScript division whose divisor may be zero: a real number, or one of
  the three special values of the number type.
\<close>

datatype jsnum = Finite real | NaN | PosInfinity | NegInfinity

definition js_div :: "real \<Rightarrow> real \<Rightarrow> jsnum" where
  "js_div a b =
     (if b \<noteq> 0 then Finite (a / b)
      else if a = 0 then NaN
      else if a > 0 then PosInfinity else NegInfinity)"

text \<open>\<open>xs.slice(s, e)\<close> for \<open>0 \<le> s \<le> e\<close>: a fresh array, clamped to the length of \<open>xs\<close>.\<close>

definition slice :: "'a list \<Rightarrow> nat \<Rightarrow> nat \<Rightarrow> 'a list" where
  "slice xs s e = drop s (take e xs)"

section \<open>The transform\<close>

text \<open>
  \<open>AudioUtils.fft\<close>. The local array \<open>output\<close> holds \<open>2 * N\<close> numbers, real and imaginary
  parts interleaved, and is updated in place; each loop is a recursive function that
  passes the array on. A write past the end of a typed array is dropped, as \<open>list_update\<close>
  drops it. The bit operators act on naturals. JavaScript applies them to signed 32-bit
  integers; the two agree while every operand is below \<open>2 ^ 31\<close>, that is for frames of
  fewer than \<open>2 ^ 30\<close> samples. For a frame of \<open>2 ^ 30\<close> samples the source's
  \<open>length <<= 1\<close> wraps to \<open>-2147483648\<close> and its stage loop does not end; the theorems
  about \<open>fft\<close> are stated below that size. The callers pass frames of 1024 and 2048
  samples.
\<close>

function fft_copy :: "real list \<Rightarrow> nat \<Rightarrow> real list \<Rightarrow> real list" where
  "fft_copy signal i output =
     (if i < length signal
      then fft_copy signal (i + 1) ((output[i * 2 := signal ! i])[i * 2 + 1 := 0])
      else output)"
  by pat_completeness auto
termination
  by (relation "measure (\<lambda>(signal, i, output). length signal - i)") auto

text \<open>The inner \<open>while (j & bit) { j ^= bit; bit >>= 1 }\<close> of the bit-reversal loop
  (\<open>bt\<close> is the source's \<open>bit\<close>).\<close>

function bitrev_while :: "nat \<Rightarrow> nat \<Rightarrow> nat \<times> nat" where
  "bitrev_while j bt =
     (if j AND bt \<noteq> 0 then bitrev_while (j XOR bt) (drop_bit 1 bt) else (j, bt))"
  by pat_completeness auto
termination
proof (relation "measure (\<lambda>(j, bt). bt)")
  show "wf (measure (\<lambda>(j, bt). bt))" by simp
next
  fix j bt :: nat
  assume "j AND bt \<noteq> 0"
  then have "bt \<noteq> 0" by (rule contrapos_nn) simp
  then show "((j XOR bt, drop_bit 1 bt), (j, bt)) \<in> measure (\<lambda>(j, bt). bt)"
    by (simp add: drop_bit_eq_div)
qed

text \<open>The exchange of the complex entries \<open>i\<close> and \<open>j\<close>, written inline in the source.\<close>

definition swap_complex :: "real list \<Rightarrow> nat \<Rightarrow> nat \<Rightarrow> real list" where
  "swap_complex output i j =
     (let temp = output ! (i * 2);
          output = output[i * 2 := output ! (j * 2)];
          output = output[j * 2 := temp];
          tempIm = output ! (i * 2 + 1);
          output = output[i * 2 + 1 := output ! (j * 2 + 1)];
          output = output[j * 2 + 1 := tempIm]
      in output)"

function fft_bitrev :: "nat \<Rightarrow> nat \<Rightarrow> nat \<Rightarrow> real list \<Rightarrow> real list" where
  "fft_bitrev N i j output =
     (if i < N
      then (let bt = drop_bit 1 N;
                (j, bt) = bitrev_while j bt;
                j = j XOR bt
            in if i < j then fft_bitrev N (i + 1) j (swap_complex output i j)
               else fft_bitrev N (i + 1) j output)
      else output)"
  by pat_completeness auto
termination
  by (relation "measure (\<lambda>(N, i, j, output). N - i)") auto

text \<open>
  The butterflies of one block: \<open>for (let j = 0; j < length / 2; j++)\<close>. The stage length
  is 2, 4, 8, ..., so \<open>length / 2\<close> is the exact half \<open>len div 2\<close>.
\<close>

function fft_butterflies ::
  "nat \<Rightarrow> real \<Rightarrow> real \<Rightarrow> nat \<Rightarrow> nat \<Rightarrow> real list \<Rightarrow> real \<Rightarrow> real \<Rightarrow> real list" where
  "fft_butterflies len wlen_real wlen_imag i j output w_real w_imag =
     (if j < len div 2
      then (let u_real = output ! ((i + j) * 2);
                u_imag = output ! ((i + j) * 2 + 1);
                v_real = output ! ((i + j + len div 2) * 2) * w_real
                         - output ! ((i + j + len div 2) * 2 + 1) * w_imag;
                v_imag = output ! ((i + j + len div 2) * 2) * w_imag
                         + output ! ((i + j + len div 2) * 2 + 1) * w_real;
                output = output[(i + j) * 2 := u_real + v_real];
                output = output[(i + j) * 2 + 1 := u_imag + v_imag];
                output = output[(i + j + len div 2) * 2 := u_real - v_real];
                output = output[(i + j + len div 2) * 2 + 1 := u_imag - v_imag];
                next_w_real = w_real * wlen_real - w_imag * wlen_imag;
                next_w_imag = w_real * wlen_imag + w_imag * wlen_real
            in fft_butterflies len wlen_real wlen_imag i (j + 1) output next_w_real next_w_imag)
      else output)"
  by pat_completeness auto
termination
  by (relation "measure (\<lambda>(len, wr, wi, i, j, output, w_real, w_imag). len div 2 - j)") auto

text \<open>
  The blocks of one stage: \<open>for (let i = 0; i < N; i += length)\<close>. The guard \<open>0 < len\<close>
  is not in the source, where \<open>length\<close> starts at 2 and only doubles; it makes the
  recursion total.
\<close>

function fft_blocks :: "nat \<Rightarrow> nat \<Rightarrow> real \<Rightarrow> real \<Rightarrow> nat \<Rightarrow> real list \<Rightarrow> real list" where
  "fft_blocks N len wlen_real wlen_imag i output =
     (if 0 < len \<and> i < N
      then fft_blocks N len wlen_real wlen_imag (i + len)
             (fft_butterflies len wlen_real wlen_imag i 0 output 1 0)
      else output)"
  by pat_completeness auto
termination
  by (relation "measure (\<lambda>(N, len, wr, wi, i, output). N - i)") auto

text \<open>The stages: \<open>for (let length = 2; length <= N; length <<= 1)\<close>, with the same guard.\<close>

function fft_stages :: "nat \<Rightarrow> nat \<Rightarrow> real list \<Rightarrow> real list" where
  "fft_stages N len output =
     (if 0 < len \<and> len \<le> N
      then (let angle = - 2 * pi / real len;
                wlen_real = cos angle;
                wlen_imag = sin angle
            in fft_stages N (push_bit 1 len) (fft_blocks N len wlen_real wlen_imag 0 output))
      else output)"
  by pat_completeness auto
termination
  by (relation "measure (\<lambda>(N, len, output). Suc N - len)") (auto simp: push_bit_eq_mult)

definition fft :: "real list \<Rightarrow> real list" where
  "fft signal =
     (let N = length signal;
          output = replicate (N * 2) 0;
          output = fft_copy signal 0 output;
          output = fft_bitrev N 1 0 output;
          output = fft_stages N 2 output
      in map (\<lambda>i. sqrt ((output ! (i * 2))\<^sup>2 + (output ! (i * 2 + 1))\<^sup>2)) [0..<N])"

definition hzToMel :: "real \<Rightarrow> real" where
  "hzToMel hz = 2595 * log 10 (1 + hz / 700)"

section \<open>The analysis functions\<close>

text \<open>
  The three frame loops share the header
  \<open>for (let i = 0; i < channelData.length - frameSize; i += hopSize)\<close> with
  \<open>hopSize = 512\<close>. The difference \<open>channelData.length - frameSize\<close> can be negative, so the
  comparison is made on integers.
\<close>

subsection \<open>Spectral centroid\<close>

function centroid_bins :: "real list \<Rightarrow> real \<Rightarrow> nat \<Rightarrow> real \<Rightarrow> real \<Rightarrow> real \<times> real" where
  "centroid_bins magnitude sr j weightedSum magnitudeSum =
     (if real j < real (length magnitude) / 2
      then (let freq = (real j * sr) / real (length magnitude);
                mag = magnitude ! j
            in centroid_bins magnitude sr (j + 1) (weightedSum + freq * mag) (magnitudeSum + mag))
      else (weightedSum, magnitudeSum))"
  by pat_completeness auto
termination
  by (relation "measure (\<lambda>(magnitude, sr, j, ws, ms). length magnitude - j)") auto

function centroid_frames :: "real list \<Rightarrow> real \<Rightarrow> nat \<Rightarrow> real \<Rightarrow> nat \<Rightarrow> real \<times> nat" where
  "centroid_frames channelData sr i totalCentroid frameCount =
     (if int i < int (length channelData) - 2048
      then (let frame = slice channelData i (i + 2048);
                magnitude = fft frame;
                (weightedSum, magnitudeSum) = centroid_bins magnitude sr 0 0 0
            in if magnitudeSum > 0
               then centroid_frames channelData sr (i + 512)
                      (totalCentroid + weightedSum / magnitudeSum) (frameCount + 1)
               else centroid_frames channelData sr (i + 512) totalCentroid frameCount)
      else (totalCentroid, frameCount))"
  by pat_completeness auto
termination
  by (relation "measure (\<lambda>(channelData, sr, i, t, c). length channelData - i)") auto

definition calculateSpectralCentroid :: "AudioBuffer \<Rightarrow> real" where
  "calculateSpectralCentroid audioBuffer =
     (let channelData = getChannelData audioBuffer 0;
          (totalCentroid, frameCount) =
             centroid_frames channelData (AudioBuffer.sampleRate audioBuffer) 0 0 0
      in if frameCount > 0 then totalCentroid / real frameCount else 0)"

subsection \<open>Zero-crossing rate\<close>

function zcr_loop :: "real list \<Rightarrow> nat \<Rightarrow> nat \<Rightarrow> nat" where
  "zcr_loop channelData i crossings =
     (if i < length channelData
      then (if (channelData ! i \<ge> 0) \<noteq> (channelData ! (i - 1) \<ge> 0)
            then zcr_loop channelData (i + 1) (crossings + 1)
            else zcr_loop channelData (i + 1) crossings)
      else crossings)"
  by pat_completeness auto
termination
  by (relation "measure (\<lambda>(channelData, i, crossings). length channelData - i)") auto

text \<open>
  The final division \<open>crossings / (channelData.length - 1)\<close> has no guard in the source;
  its divisor is \<open>-1\<close> for an empty channel and \<open>0\<close> for a channel of one sample.
\<close>

definition calculateZeroCrossingRate :: "AudioBuffer \<Rightarrow> jsnum" where
  "calculateZeroCrossingRate audioBuffer =
     (let channelData = getChannelData audioBuffer 0;
          crossings = zcr_loop channelData 1 0
      in js_div (real crossings) (real_of_int (int (length channelData) - 1)))"

subsection \<open>Coefficient vector\<close>

function mfcc_coeffs :: "real \<Rightarrow> nat \<Rightarrow> nat \<Rightarrow> real list \<Rightarrow> real list" where
  "mfcc_coeffs sr magnitudeLength j mfccFeatures =
     (if j < 13
      then (let melFreq = hzToMel ((real j * sr) / real magnitudeLength)
            in mfcc_coeffs sr magnitudeLength (j + 1) (mfccFeatures @ [melFreq]))
      else mfccFeatures)"
  by pat_completeness auto
termination
  by (relation "measure (\<lambda>(sr, n, j, fs). 13 - j)") auto

function mfcc_frames :: "real list \<Rightarrow> real \<Rightarrow> nat \<Rightarrow> real list \<Rightarrow> real list" where
  "mfcc_frames channelData sr i mfccFeatures =
     (if int i < int (length channelData) - 1024
      then (let frame = slice channelData i (i + 1024);
                magnitude = fft frame
            in mfcc_frames channelData sr (i + 512)
                 (mfcc_coeffs sr (length magnitude) 0 mfccFeatures))
      else mfccFeatures)"
  by pat_completeness auto
termination
  by (relation "measure (\<lambda>(channelData, sr, i, fs). length channelData - i)") auto

definition calculateMFCC :: "AudioBuffer \<Rightarrow> real list" where
  "calculateMFCC audioBuffer =
     (let channelData = getChannelData audioBuffer 0;
          mfccFeatures = mfcc_frames channelData (AudioBuffer.sampleRate audioBuffer) 0 []
      in slice mfccFeatures 0 13)"

subsection \<open>Polyphony\<close>

text \<open>
  \<open>Math.max(...magnitude)\<close>. A spectrum passed here is never empty (it has 2048 bins); for
  an empty one the peak loop below does not run and the threshold is not read.
\<close>

definition Math_max :: "real list \<Rightarrow> real" where
  "Math_max xs = Max (set xs)"

function peak_loop :: "real list \<Rightarrow> real \<Rightarrow> nat \<Rightarrow> nat \<Rightarrow> nat" where
  "peak_loop magnitude threshold j peakCount =
     (if int j < int (length magnitude) - 1
      then (if magnitude ! j > threshold \<and>
               magnitude ! j > magnitude ! (j - 1) \<and>
               magnitude ! j > magnitude ! (j + 1)
            then peak_loop magnitude threshold (j + 1) (peakCount + 1)
            else peak_loop magnitude threshold (j + 1) peakCount)
      else peakCount)"
  by pat_completeness auto
termination
  by (relation "measure (\<lambda>(magnitude, threshold, j, c). length magnitude - j)") auto

function polyphony_frames :: "real list \<Rightarrow> nat \<Rightarrow> nat \<Rightarrow> nat \<Rightarrow> nat \<times> nat" where
  "polyphony_frames channelData i polyphonicFrames totalFrames =
     (if int i < int (length channelData) - 2048
      then (let frame = slice channelData i (i + 2048);
                magnitude = fft frame;
                threshold = Math_max magnitude * 0.1;
                peakCount = peak_loop magnitude threshold 1 0
            in if peakCount > 3
               then polyphony_frames channelData (i + 512) (polyphonicFrames + 1) (totalFrames + 1)
               else polyphony_frames channelData (i + 512) polyphonicFrames (totalFrames + 1))
      else (polyphonicFrames, totalFrames))"
  by pat_completeness auto
termination
  by (relation "measure (\<lambda>(channelData, i, p, t). length channelData - i)") auto

definition detectPolyphony :: "AudioBuffer \<Rightarrow> bool" where
  "detectPolyphony audioBuffer =
     (let channelData = getChannelData audioBuffer 0;
          (polyphonicFrames, totalFrames) = polyphony_frames channelData 0 0 0
      in totalFrames > 0 \<and> real polyphonicFrames / real totalFrames > 0.3)"

section \<open>The same code over an explicit store\<close>

text \<open>
  The functions above pass array contents as values. Here the same statements run on a
  store: a \<open>Float32Array\<close> is a reference (an address and its fixed length), the store
  maps addresses to contents, \<open>new Float32Array(n)\<close> and \<open>slice\<close> allocate at the next free
  address, an element assignment changes the store at the array's address, and
  \<open>getChannelData\<close> returns the buffer's own array, not a copy. Every function returns
  the store it leaves behind.
\<close>

record Float32Array =
  arr_addr :: nat
  arr_len :: nat

type_synonym heap = "nat \<Rightarrow> real list"

record store =
  arrays :: heap
  next_free :: nat

record AudioBufferRef =
  ref_sampleRate :: real
  ref_duration :: real
  ref_channel0 :: Float32Array
  ref_otherChannels :: "Float32Array list"

definition getChannelData_st :: "AudioBufferRef \<Rightarrow> nat \<Rightarrow> Float32Array" where
  "getChannelData_st b c = (ref_channel0 b # ref_otherChannels b) ! c"

text \<open>\<open>a[i] = v\<close> on the array at address \<open>a\<close>; a write past the end is dropped.\<close>

definition array_write :: "heap \<Rightarrow> nat \<Rightarrow> nat \<Rightarrow> real \<Rightarrow> heap" where
  "array_write h a i v = h(a := (h a)[i := v])"

definition new_Float32Array :: "nat \<Rightarrow> store \<Rightarrow> Float32Array \<times> store" where
  "new_Float32Array n s =
     (\<lparr> arr_addr = next_free s, arr_len = n \<rparr>,
      \<lparr> arrays = (arrays s)(next_free s := replicate n 0), next_free = next_free s + 1 \<rparr>)"

definition slice_st :: "Float32Array \<Rightarrow> nat \<Rightarrow> nat \<Rightarrow> store \<Rightarrow> Float32Array \<times> store" where
  "slice_st a st e s =
     (let xs = slice (arrays s (arr_addr a)) st e
      in (\<lparr> arr_addr = next_free s, arr_len = length xs \<rparr>,
          \<lparr> arrays = (arrays s)(next_free s := xs), next_free = next_free s + 1 \<rparr>))"

subsection \<open>The transform\<close>

function fft_copy_h :: "nat \<Rightarrow> nat \<Rightarrow> nat \<Rightarrow> nat \<Rightarrow> heap \<Rightarrow> heap" where
  "fft_copy_h signal N i output h =
     (if i < N
      then (let h = array_write h output (i * 2) (h signal ! i);
                h = array_write h output (i * 2 + 1) 0
            in fft_copy_h signal N (i + 1) output h)
      else h)"
  by pat_completeness auto
termination
  by (relation "measure (\<lambda>(signal, N, i, output, h). N - i)") auto

definition swap_complex_h :: "heap \<Rightarrow> nat \<Rightarrow> nat \<Rightarrow> nat \<Rightarrow> heap" where
  "swap_complex_h h output i j =
     (let temp = h output ! (i * 2);
          h = array_write h output (i * 2) (h output ! (j * 2));
          h = array_write h output (j * 2) temp;
          tempIm = h output ! (i * 2 + 1);
          h = array_write h output (i * 2 + 1) (h output ! (j * 2 + 1));
          h = array_write h output (j * 2 + 1) tempIm
      in h)"

function fft_bitrev_h :: "nat \<Rightarrow> nat \<Rightarrow> nat \<Rightarrow> nat \<Rightarrow> heap \<Rightarrow> heap" where
  "fft_bitrev_h N i j output h =
     (if i < N
      then (let bt = drop_bit 1 N;
                (j, bt) = bitrev_while j bt;
                j = j XOR bt
            in if i < j then fft_bitrev_h N (i + 1) j output (swap_complex_h h output i j)
               else fft_bitrev_h N (i + 1) j output h)
      else h)"
  by pat_completeness auto
termination
  by (relation "measure (\<lambda>(N, i, j, output, h). N - i)") auto

function fft_butterflies_h ::
  "nat \<Rightarrow> real \<Rightarrow> real \<Rightarrow> nat \<Rightarrow> nat \<Rightarrow> nat \<Rightarrow> heap \<Rightarrow> real \<Rightarrow> real \<Rightarrow> heap" where
  "fft_butterflies_h len wlen_real wlen_imag i j output h w_real w_imag =
     (if j < len div 2
      then (let u_real = h output ! ((i + j) * 2);
                u_imag = h output ! ((i + j) * 2 + 1);
                v_real = h output ! ((i + j + len div 2) * 2) * w_real
                         - h output ! ((i + j + len div 2) * 2 + 1) * w_imag;
                v_imag = h output ! ((i + j + len div 2) * 2) * w_imag
                         + h output ! ((i + j + len div 2) * 2 + 1) * w_real;
                h = array_write h output ((i + j) * 2) (u_real + v_real);
                h = array_write h output ((i + j) * 2 + 1) (u_imag + v_imag);
                h = array_write h output ((i + j + len div 2) * 2) (u_real - v_real);
                h = array_write h output ((i + j + len div 2) * 2 + 1) (u_imag - v_imag);
                next_w_real = w_real * wlen_real - w_imag * wlen_imag;
                next_w_imag = w_real * wlen_imag + w_imag * wlen_real
            in fft_butterflies_h len wlen_real wlen_imag i (j + 1) output h next_w_real next_w_imag)
      else h)"
  by pat_completeness auto
termination
  by (relation "measure (\<lambda>(len, wr, wi, i, j, output, h, w_real, w_imag). len div 2 - j)") auto

function fft_blocks_h :: "nat \<Rightarrow> nat \<Rightarrow> real \<Rightarrow> real \<Rightarrow> nat \<Rightarrow> nat \<Rightarrow> heap \<Rightarrow> heap" where
  "fft_blocks_h N len wlen_real wlen_imag i output h =
     (if 0 < len \<and> i < N
      then fft_blocks_h N len wlen_real wlen_imag (i + len) output
             (fft_butterflies_h len wlen_real wlen_imag i 0 output h 1 0)
      else h)"
  by pat_completeness auto
termination
  by (relation "measure (\<lambda>(N, len, wr, wi, i, output, h). N - i)") auto

function fft_stages_h :: "nat \<Rightarrow> nat \<Rightarrow> nat \<Rightarrow> heap \<Rightarrow> heap" where
  "fft_stages_h N len output h =
     (if 0 < len \<and> len \<le> N
      then (let angle = - 2 * pi / real len;
                wlen_real = cos angle;
                wlen_imag = sin angle
            in fft_stages_h N (push_bit 1 len) output
                 (fft_blocks_h N len wlen_real wlen_imag 0 output h))
      else h)"
  by pat_completeness auto
termination
  by (relation "measure (\<lambda>(N, len, output, h). Suc N - len)") (auto simp: push_bit_eq_mult)

function fft_magnitude_h :: "nat \<Rightarrow> nat \<Rightarrow> nat \<Rightarrow> nat \<Rightarrow> heap \<Rightarrow> heap" where
  "fft_magnitude_h N i output magnitude h =
     (if i < N
      then fft_magnitude_h N (i + 1) output magnitude
             (array_write h magnitude i
                (sqrt ((h output ! (i * 2))\<^sup>2 + (h output ! (i * 2 + 1))\<^sup>2)))
      else h)"
  by pat_completeness auto
termination
  by (relation "measure (\<lambda>(N, i, output, magnitude, h). N - i)") auto

definition fft_st :: "Float32Array \<Rightarrow> store \<Rightarrow> Float32Array \<times> store" where
  "fft_st signal s =
     (let N = arr_len signal;
          (output, s) = new_Float32Array (N * 2) s;
          h = fft_copy_h (arr_addr signal) N 0 (arr_addr output) (arrays s);
          h = fft_bitrev_h N 1 0 (arr_addr output) h;
          h = fft_stages_h N 2 (arr_addr output) h;
          (magnitude, s) = new_Float32Array N (s\<lparr> arrays := h \<rparr>);
          h = fft_magnitude_h N 0 (arr_addr output) (arr_addr magnitude) (arrays s)
      in (magnitude, s\<lparr> arrays := h \<rparr>))"

subsection \<open>The analysis functions\<close>

text \<open>
  The inner loops over a spectrum only read it, so they are the functions above applied
  to the contents of the spectrum's array.
\<close>

function centroid_frames_st ::
  "Float32Array \<Rightarrow> real \<Rightarrow> nat \<Rightarrow> real \<Rightarrow> nat \<Rightarrow> store \<Rightarrow> (real \<times> nat) \<times> store" where
  "centroid_frames_st channelData sr i totalCentroid frameCount s =
     (if int i < int (arr_len channelData) - 2048
      then (let (frame, s) = slice_st channelData i (i + 2048) s;
                (magnitude, s) = fft_st frame s;
                (weightedSum, magnitudeSum) =
                   centroid_bins (arrays s (arr_addr magnitude)) sr 0 0 0
            in if magnitudeSum > 0
               then centroid_frames_st channelData sr (i + 512)
                      (totalCentroid + weightedSum / magnitudeSum) (frameCount + 1) s
               else centroid_frames_st channelData sr (i + 512) totalCentroid frameCount s)
      else ((totalCentroid, frameCount), s))"
  by pat_completeness auto
termination
  by (relation "measure (\<lambda>(channelData, sr, i, t, c, s). arr_len channelData - i)") auto

definition calculateSpectralCentroid_st :: "AudioBufferRef \<Rightarrow> store \<Rightarrow> real \<times> store" where
  "calculateSpectralCentroid_st audioBuffer s =
     (let channelData = getChannelData_st audioBuffer 0;
          ((totalCentroid, frameCount), s) =
             centroid_frames_st channelData (ref_sampleRate audioBuffer) 0 0 0 s
      in (if frameCount > 0 then totalCentroid / real frameCount else 0, s))"

definition calculateZeroCrossingRate_st :: "AudioBufferRef \<Rightarrow> store \<Rightarrow> jsnum \<times> store" where
  "calculateZeroCrossingRate_st audioBuffer s =
     (let channelData = getChannelData_st audioBuffer 0;
          crossings = zcr_loop (arrays s (arr_addr channelData)) 1 0
      in (js_div (real crossings) (real_of_int (int (arr_len channelData) - 1)), s))"

function mfcc_frames_st ::
  "Float32Array \<Rightarrow> real \<Rightarrow> nat \<Rightarrow> real list \<Rightarrow> store \<Rightarrow> real list \<times> store" where
  "mfcc_frames_st channelData sr i mfccFeatures s =
     (if int i < int (arr_len channelData) - 1024
      then (let (frame, s) = slice_st channelData i (i + 1024) s;
                (magnitude, s) = fft_st frame s
            in mfcc_frames_st channelData sr (i + 512)
                 (mfcc_coeffs sr (arr_len magnitude) 0 mfccFeatures) s)
      else (mfccFeatures, s))"
  by pat_completeness auto
termination
  by (relation "measure (\<lambda>(channelData, sr, i, fs, s). arr_len channelData - i)") auto

definition calculateMFCC_st :: "AudioBufferRef \<Rightarrow> store \<Rightarrow> real list \<times> store" where
  "calculateMFCC_st audioBuffer s =
     (let channelData = getChannelData_st audioBuffer 0;
          (mfccFeatures, s) = mfcc_frames_st channelData (ref_sampleRate audioBuffer) 0 [] s
      in (slice mfccFeatures 0 13, s))"

function polyphony_frames_st ::
  "Float32Array \<Rightarrow> nat \<Rightarrow> nat \<Rightarrow> nat \<Rightarrow> store \<Rightarrow> (nat \<times> nat) \<times> store" where
  "polyphony_frames_st channelData i polyphonicFrames totalFrames s =
     (if int i < int (arr_len channelData) - 2048
      then (let (frame, s) = slice_st channelData i (i + 2048) s;
                (magnitude, s) = fft_st frame s;
                threshold = Math_max (arrays s (arr_addr magnitude)) * 0.1;
                peakCount = peak_loop (arrays s (arr_addr magnitude)) threshold 1 0
            in if peakCount > 3
               then polyphony_frames_st channelData (i + 512)
                      (polyphonicFrames + 1) (totalFrames + 1) s
               else polyphony_frames_st channelData (i + 512)
                      polyphonicFrames (totalFrames + 1) s)
      else ((polyphonicFrames, totalFrames), s))"
  by pat_completeness auto
termination
  by (relation "measure (\<lambda>(channelData, i, p, t, s). arr_len channelData - i)") auto

definition detectPolyphony_st :: "AudioBufferRef \<Rightarrow> store \<Rightarrow> bool \<times> store" where
  "detectPolyphony_st audioBuffer s =
     (let channelData = getChannelData_st audioBuffer 0;
          ((polyphonicFrames, totalFrames), s) = polyphony_frames_st channelData 0 0 0 s
      in (totalFrames > 0 \<and> real polyphonicFrames / real totalFrames > 0.3, s))"

text \<open>
  A reference is allocated in a store when its address is below the next free one and the
  contents there have the reference's length. The buffer a store holds for a buffer
  object is read off the contents of its channel arrays.
\<close>

definition allocated :: "store \<Rightarrow> Float32Array \<Rightarrow> bool" where
  "allocated s a = (arr_addr a < next_free s \<and> length (arrays s (arr_addr a)) = arr_len a)"

definition buffer_of :: "store \<Rightarrow> AudioBufferRef \<Rightarrow> AudioBuffer" where
  "buffer_of s b =
     \<lparr> AudioBuffer.sampleRate = ref_sampleRate b,
       AudioBuffer.duration = ref_duration b,
       channel0 = arrays s (arr_addr (ref_channel0 b)),
       otherChannels = map (\<lambda>a. arrays s (arr_addr a)) (ref_otherChannels b) \<rparr>"

text \<open>
  One store extends another when it has allocated no less and every array allocated in
  the first has the contents it had. A buffer object is allocated when each of its channel
  arrays is.
\<close>

definition store_extends :: "store \<Rightarrow> store \<Rightarrow> bool" where
  "store_extends s s' =
     (next_free s \<le> next_free s' \<and> (\<forall>a<next_free s. arrays s' a = arrays s a))"

definition buffer_allocated :: "store \<Rightarrow> AudioBufferRef \<Rightarrow> bool" where
  "buffer_allocated s b = list_all (allocated s) (ref_channel0 b # ref_otherChannels b)"

text \<open>
  Two buffer objects used as an example: a mono buffer of 2049 samples, and a buffer of
  three channels in another store whose first channel has the same samples at another
  address. A channel of 2049 samples makes each frame loop analyse one frame.
\<close>

definition example_channel :: "real list" where
  "example_channel = map (\<lambda>i. if even i then 1 else - 1 / 2) [0..<2049]"

definition example_store_mono :: store where
  "example_store_mono = \<lparr> arrays = (\<lambda>a. [])(0 := example_channel), next_free = 1 \<rparr>"

definition example_buffer_mono :: AudioBufferRef where
  "example_buffer_mono =
     \<lparr> ref_sampleRate = 44100, ref_duration = 2049 / 44100,
       ref_channel0 = \<lparr> arr_addr = 0, arr_len = 2049 \<rparr>, ref_otherChannels = [] \<rparr>"

definition example_store_stereo :: store where
  "example_store_stereo =
     \<lparr> arrays = (\<lambda>a. [])(0 := replicate 2049 (1 / 4), 1 := example_channel,
                              2 := replicate 2049 (- 1 / 4)),
       next_free = 3 \<rparr>"

definition example_buffer_stereo :: AudioBufferRef where
  "example_buffer_stereo =
     \<lparr> ref_sampleRate = 44100, ref_duration = 7,
       ref_channel0 = \<lparr> arr_addr = 1, arr_len = 2049 \<rparr>,
       ref_otherChannels = [\<lparr> arr_addr = 0, arr_len = 2049 \<rparr>, \<lparr> arr_addr = 2, arr_len = 2049 \<rparr>] \<rparr>"

section \<open>The aggregate result\<close>


record AudioFormat =
  sampleRate :: real
  channels :: nat
  bitDepth :: int
  duration :: real

record AudioAnalysis =
  format :: AudioFormat
  isPolyphonic :: bool
  spectralCentroid :: real
  zeroCrossingRate :: jsnum
  mfccFeatures :: "real list"
  tempo :: "real option"
  key :: "string option"

definition analyzeAudio :: "AudioBuffer \<Rightarrow> AudioAnalysis" where
  "analyzeAudio audioBuffer =
     (let format = \<lparr> AudioFormat.sampleRate = AudioBuffer.sampleRate audioBuffer,
                     channels = numberOfChannels audioBuffer,
                     bitDepth = 16,
                     AudioFormat.duration = AudioBuffer.duration audioBuffer \<rparr>;
          spectralCentroid = calculateSpectralCentroid audioBuffer;
          zeroCrossingRate = calculateZeroCrossingRate audioBuffer;
          mfccFeatures = calculateMFCC audioBuffer;
          isPolyphonic = detectPolyphony audioBuffer
      in \<lparr> format = format,
           isPolyphonic = isPolyphonic,
           spectralCentroid = spectralCentroid,
           zeroCrossingRate = zeroCrossingRate,
           mfccFeatures = mfccFeatures,
           tempo = None,
           key = None \<rparr>)"

section \<open>Reference definitions\<close>

text \<open>
  The offsets at which a frame loop runs its body, read off the loop header: \<open>i\<close> starts at 0,
  advances by 512, and the body runs while \<open>i < channelData.length - frameSize\<close>. The frames
  analysed are the slices at these offsets.
\<close>

function analysed_offsets :: "nat \<Rightarrow> nat \<Rightarrow> nat \<Rightarrow> nat list" where
  "analysed_offsets len frameSize i =
     (if int i < int len - int frameSize
      then i # analysed_offsets len frameSize (i + 512)
      else [])"
  by pat_completeness auto
termination
  by (relation "measure (\<lambda>(len, frameSize, i). len - i)") auto

definition analysed_frames :: "real list \<Rightarrow> nat \<Rightarrow> real list list" where
  "analysed_frames channelData frameSize =
     map (\<lambda>i. slice channelData i (i + frameSize))
       (analysed_offsets (length channelData) frameSize 0)"

text \<open>Signals named by the specification of the zero-crossing rate.\<close>

definition constant_sign :: "real list \<Rightarrow> bool" where
  "constant_sign xs = (list_all (\<lambda>x. x \<ge> 0) xs \<or> list_all (\<lambda>x. x < 0) xs)"

definition alternating_signal :: "nat \<Rightarrow> real list" where
  "alternating_signal n = map (\<lambda>i. if even i then 1 else - 1) [0..<n]"

text \<open>
  The spectral centroid as the specification words it: per frame, the magnitude-weighted
  mean of the bin frequencies \<open>i * sampleRate / frameLength\<close> over the first half of the
  bins; over the signal, the mean of the centroids of the frames whose magnitude sum is
  not zero, and 0 when there is no such frame.
\<close>

definition spec_magnitude_sum :: "real list \<Rightarrow> real" where
  "spec_magnitude_sum magnitude = (\<Sum>i\<leftarrow>[0..<length magnitude div 2]. magnitude ! i)"

definition spec_frame_centroid :: "real \<Rightarrow> real list \<Rightarrow> real" where
  "spec_frame_centroid sr magnitude =
     (\<Sum>i\<leftarrow>[0..<length magnitude div 2]. (real i * sr / real (length magnitude)) * magnitude ! i)
     / spec_magnitude_sum magnitude"

definition spec_spectralCentroid :: "AudioBuffer \<Rightarrow> real" where
  "spec_spectralCentroid b =
     (let spectra = map fft (analysed_frames (getChannelData b 0) 2048);
          sounding = filter (\<lambda>m. spec_magnitude_sum m \<noteq> 0) spectra
      in if sounding = [] then 0
         else sum_list (map (spec_frame_centroid (AudioBuffer.sampleRate b)) sounding)
              / real (length sounding))"

text \<open>
  The polyphony estimate as the specification words it: a peak is a bin other than the first
  and the last that exceeds 10% of the frame's maximum and both neighbours; a frame
  is polyphonic with more than 3 peaks; the signal is polyphonic when there is a frame and
  more than 0.3 of the frames are polyphonic.
\<close>

definition spec_is_peak :: "real list \<Rightarrow> nat \<Rightarrow> bool" where
  "spec_is_peak magnitude j =
     (magnitude ! j > Max (set magnitude) * 0.1 \<and>
      magnitude ! j > magnitude ! (j - 1) \<and>
      magnitude ! j > magnitude ! (j + 1))"

definition spec_peak_count :: "real list \<Rightarrow> nat" where
  "spec_peak_count magnitude =
     length (filter (spec_is_peak magnitude) [1..<length magnitude - 1])"

definition spec_polyphonic_frame :: "real list \<Rightarrow> bool" where
  "spec_polyphonic_frame magnitude = (spec_peak_count magnitude > 3)"

definition spec_detectPolyphony :: "AudioBuffer \<Rightarrow> bool" where
  "spec_detectPolyphony b =
     (let spectra = map fft (analysed_frames (getChannelData b 0) 2048)
      in spectra \<noteq> [] \<and>
         real (length (filter spec_polyphonic_frame spectra)) / real (length spectra) > 0.3)"

text \<open>The spectra of the frames analysed from offset \<open>i\<close> on, and those with a non-zero sum.\<close>

definition analysed_spectra :: "real list \<Rightarrow> nat \<Rightarrow> real list list" where
  "analysed_spectra ch i =
     map (\<lambda>k. fft (slice ch k (k + 2048))) (analysed_offsets (length ch) 2048 i)"

definition sounding_spectra :: "real list \<Rightarrow> nat \<Rightarrow> real list list" where
  "sounding_spectra ch i =
     filter (\<lambda>m. spec_magnitude_sum m \<noteq> 0)
       (map (\<lambda>k. fft (slice ch k (k + 2048))) (analysed_offsets (length ch) 2048 i))"

text \<open>
  The reference transform: the discrete Fourier transform of a real frame, summed term by
  term from its definition, and the magnitude \<open>sqrt(real\<^sup>2 + imag\<^sup>2)\<close> of each of its bins.
\<close>

definition dft :: "real list \<Rightarrow> nat \<Rightarrow> complex" where
  "dft frame i =
     (\<Sum>m<length frame.
        of_real (frame ! m) * cis (- 2 * pi * real i * real m / real (length frame)))"

definition dft_magnitude :: "real list \<Rightarrow> real list" where
  "dft_magnitude frame =
     map (\<lambda>i. sqrt ((Re (dft frame i))\<^sup>2 + (Im (dft frame i))\<^sup>2)) [0..<length frame]"

text \<open>
  Notions used to state the loop invariants of the transform: the complex entry \<open>i\<close> of the
  interleaved array and the update of one entry; the reversal of the low \<open>k\<close> bits of an
  index; the root of unity \<open>exp(-2\<pi>i / n)\<close>; the transform of the sub-sequence of stride
  \<open>st\<close> and length \<open>L\<close> that starts at \<open>off\<close>; and the state of the array after the
  stage of block length \<open>2 ^ s\<close>.
\<close>

definition cplx :: "real list \<Rightarrow> nat \<Rightarrow> complex" where
  "cplx output i = Complex (output ! (i * 2)) (output ! (i * 2 + 1))"

definition cset :: "real list \<Rightarrow> nat \<Rightarrow> complex \<Rightarrow> real list" where
  "cset output p z = (output[p * 2 := Re z])[p * 2 + 1 := Im z]"

fun bitrev :: "nat \<Rightarrow> nat \<Rightarrow> nat" where
  "bitrev 0 i = 0"
| "bitrev (Suc k) i = (i mod 2) * 2 ^ k + bitrev k (i div 2)"

definition omega :: "nat \<Rightarrow> complex" where
  "omega n = cis (- 2 * pi / real n)"

definition sub_dft :: "(nat \<Rightarrow> complex) \<Rightarrow> nat \<Rightarrow> nat \<Rightarrow> nat \<Rightarrow> nat \<Rightarrow> complex" where
  "sub_dft x st L off j = (\<Sum>m<L. x (off + m * st) * omega L ^ (j * m))"

definition stage_inv :: "(nat \<Rightarrow> complex) \<Rightarrow> nat \<Rightarrow> nat \<Rightarrow> real list \<Rightarrow> bool" where
  "stage_inv x k s out =
     (length out = 2 ^ k * 2 \<and>
      (\<forall>b<2 ^ (k - s). \<forall>t<2 ^ s.
         cplx out (b * 2 ^ s + t) = sub_dft x (2 ^ (k - s)) (2 ^ s) (bitrev (k - s) b) t))"

section \<open>Properties\<close>

text \<open>The loop equations are unfolded one step at a time, by hand.\<close>

declare fft_copy.simps [simp del] bitrev_while.simps [simp del] fft_bitrev.simps [simp del]
  fft_butterflies.simps [simp del] fft_blocks.simps [simp del] fft_stages.simps [simp del]
  centroid_bins.simps [simp del] centroid_frames.simps [simp del] zcr_loop.simps [simp del]
  mfcc_coeffs.simps [simp del] mfcc_frames.simps [simp del] peak_loop.simps [simp del]
  polyphony_frames.simps [simp del] analysed_offsets.simps [simp del]
  fft_copy_h.simps [simp del] fft_bitrev_h.simps [simp del] fft_butterflies_h.simps [simp del]
  fft_blocks_h.simps [simp del] fft_stages_h.simps [simp del] fft_magnitude_h.simps [simp del]
  centroid_frames_st.simps [simp del] mfcc_frames_st.simps [simp del]
  polyphony_frames_st.simps [simp del]

subsection \<open>Lengths and signs\<close>

lemma length_fft [simp]: "length (fft signal) = length signal"
  by (simp add: fft_def Let_def)

lemma fft_nonneg: "x \<in> set (fft signal) \<Longrightarrow> 0 \<le> x"
  by (auto simp: fft_def Let_def)

lemma length_slice: "e \<le> length xs \<Longrightarrow> length (slice xs s e) = e - s"
  by (simp add: slice_def)

subsection \<open>A worked example\<close>

text \<open>
  The transform of the frame \<open>[1, 2, 3, 4]\<close>, loop by loop: the interleaved copy, the
  exchange of entries 1 and 2, the stage of length 2, the stage of length 4 with the
  twiddle factor \<open>-i\<close>, and the magnitudes of \<open>10, -2 + 2i, -2, -2 - 2i\<close>.
\<close>

lemma fft_copy_example: "fft_copy [1, 2, 3, 4] 0 (replicate (4 * 2) 0) = [1, 0, 2, 0, 3, 0, 4, 0]"
  by (simp add: fft_copy.simps numeral_eq_Suc)

lemma fft_bitrev_example: "fft_bitrev 4 1 0 [1, 0, 2, 0, 3, 0, 4, 0] = [1, 0, 3, 0, 2, 0, 4, 0]"
  by (simp add: fft_bitrev.simps bitrev_while.simps swap_complex_def Let_def drop_bit_eq_div)

lemma fft_blocks_example_2: "fft_blocks 4 2 (cos (- 2 * pi / real (2::nat))) (sin (- 2 * pi / real (2::nat))) 0
     [1, 0, 3, 0, 2, 0, 4, 0] = [4, 0, - 2, 0, 6, 0, - 2, 0]"
  by (simp add: fft_blocks.simps fft_butterflies.simps Let_def)

lemma fft_blocks_example_4: "fft_blocks 4 4 (cos (- 2 * pi / real (4::nat))) (sin (- 2 * pi / real (4::nat))) 0
     [4, 0, - 2, 0, 6, 0, - 2, 0] = [10, 0, - 2, 2, - 2, 0, - 2, - 2]"
  by (simp add: fft_blocks.simps fft_butterflies.simps Let_def)

lemma fft_stages_example: "fft_stages 4 2 [1, 0, 3, 0, 2, 0, 4, 0] = [10, 0, - 2, 2, - 2, 0, - 2, - 2]"
proof -
  have "fft_stages 4 2 [1, 0, 3, 0, 2, 0, 4, 0] =
      fft_stages 4 4 (fft_blocks 4 2 (cos (- 2 * pi / real (2::nat))) (sin (- 2 * pi / real (2::nat))) 0
        [1, 0, 3, 0, 2, 0, 4, 0])"
    by (subst fft_stages.simps) (simp add: Let_def push_bit_eq_mult)
  also have "\<dots> = fft_stages 4 4 [4, 0, - 2, 0, 6, 0, - 2, 0]" by (simp only: fft_blocks_example_2)
  also have "\<dots> = fft_stages 4 8 (fft_blocks 4 4 (cos (- 2 * pi / real (4::nat)))
      (sin (- 2 * pi / real (4::nat))) 0 [4, 0, - 2, 0, 6, 0, - 2, 0])"
    by (subst fft_stages.simps) (simp add: Let_def push_bit_eq_mult)
  also have "\<dots> = fft_stages 4 8 [10, 0, - 2, 2, - 2, 0, - 2, - 2]" by (simp only: fft_blocks_example_4)
  also have "\<dots> = [10, 0, - 2, 2, - 2, 0, - 2, - 2]"
    by (subst fft_stages.simps) simp
  finally show ?thesis .
qed

lemma fft_example: "fft [1, 2, 3, 4] = [10, sqrt 8, 2, sqrt 8]"
proof -
  have len: "length [1, 2, 3, 4 :: real] = 4" by simp
  have "fft [1, 2, 3, 4] =
      map (\<lambda>i. sqrt (([10, 0, - 2, 2, - 2, 0, - 2, - 2] ! (i * 2))\<^sup>2
                    + ([10, 0, - 2, 2, - 2, 0, - 2, - 2] ! (i * 2 + 1))\<^sup>2)) [0..<4]"
    unfolding fft_def Let_def len fft_copy_example fft_bitrev_example fft_stages_example ..
  also have "\<dots> = [10, sqrt 8, 2, sqrt 8]"
    by (simp add: upt_rec numeral_eq_Suc)
  finally show ?thesis .
qed

subsection \<open>Zero-crossing rate\<close>

lemma zcr_loop_le: "zcr_loop ch i c \<le> c + (length ch - i)"
proof (induction ch i c rule: zcr_loop.induct)
  case (1 ch i c)
  show ?case
  proof (cases "i < length ch")
    case True
    then show ?thesis
      using "1.IH"(1)[OF True] "1.IH"(2)[OF True]
      by (subst zcr_loop.simps) (auto split: if_splits)
  next
    case False
    then show ?thesis by (subst zcr_loop.simps) simp
  qed
qed

lemma zcr_loop_constant:
  "list_all (\<lambda>x. x \<ge> 0) ch \<or> list_all (\<lambda>x. x < 0) ch \<Longrightarrow> 1 \<le> i \<Longrightarrow> zcr_loop ch i c = c"
proof (induction ch i c rule: zcr_loop.induct)
  case (1 ch i c)
  show ?case
  proof (cases "i < length ch")
    case True
    have "(ch ! i \<ge> 0) = (ch ! (i - 1) \<ge> 0)"
    proof -
      have "i - 1 < length ch" using True by simp
      with "1.prems"(1) True show ?thesis
        by (auto simp: list_all_length not_le)
    qed
    then show ?thesis
      using "1.IH"(2)[OF True] "1.prems" True
      by (subst zcr_loop.simps) simp
  next
    case False
    then show ?thesis by (subst zcr_loop.simps) simp
  qed
qed

lemma zcr_loop_alternating:
  "1 \<le> i \<Longrightarrow> ch = alternating_signal n \<Longrightarrow> zcr_loop ch i c = c + (n - i)"
proof (induction ch i c rule: zcr_loop.induct)
  case (1 ch i c)
  have len: "length ch = n" using "1.prems" by (simp add: alternating_signal_def)
  show ?case
  proof (cases "i < length ch")
    case True
    have "(ch ! i \<ge> 0) \<noteq> (ch ! (i - 1) \<ge> 0)"
      using "1.prems" True len by (auto simp: alternating_signal_def)
    then show ?thesis
      using "1.IH"(1)[OF True] "1.prems" True len
      by (subst zcr_loop.simps) simp
  next
    case False
    then show ?thesis using len by (subst zcr_loop.simps) simp
  qed
qed

text \<open>
  C5, as the code has it: a channel of exactly one sample makes the division \<open>0 / 0\<close>, and
  the result is \<open>NaN\<close>. For every buffer whose channel 0 does not hold exactly one sample,
  the zero-crossing rate is a number in \<open>[0, 1]\<close>, and it is exactly 0 when the signal has
  constant sign (all samples \<open>\<ge> 0\<close>, or all \<open>< 0\<close>). For the signal alternating
  \<open>+1, -1, +1, -1, ...\<close> over at least two samples it is exactly 1.
\<close>

theorem zcr_amended:
  "(length (getChannelData b 0) \<noteq> 1 \<longrightarrow>
      (\<exists>r. calculateZeroCrossingRate b = Finite r \<and> 0 \<le> r \<and> r \<le> 1)) \<and>
   (length (getChannelData b 0) \<noteq> 1 \<and> constant_sign (getChannelData b 0) \<longrightarrow>
      calculateZeroCrossingRate b = Finite 0) \<and>
   (2 \<le> n \<and> getChannelData b 0 = alternating_signal n \<longrightarrow>
      calculateZeroCrossingRate b = Finite 1) \<and>
   (length (getChannelData b 0) = 1 \<longrightarrow> calculateZeroCrossingRate b = NaN)"
proof (intro conjI impI)
  let ?ch = "getChannelData b 0"
  assume n1: "length ?ch \<noteq> 1"
  show "\<exists>r. calculateZeroCrossingRate b = Finite r \<and> 0 \<le> r \<and> r \<le> 1"
  proof (cases "length ?ch = 0")
    case True
    then show ?thesis
      by (simp add: calculateZeroCrossingRate_def js_div_def zcr_loop.simps)
  next
    case False
    with n1 have ge: "2 \<le> length ?ch" by arith
    have "zcr_loop ?ch 1 0 \<le> length ?ch - 1" using zcr_loop_le[of ?ch 1 0] by simp
    then have "real (zcr_loop ?ch 1 0) \<le> real (length ?ch) - 1" using ge by linarith
    then show ?thesis using ge
      by (simp add: calculateZeroCrossingRate_def js_div_def Let_def)
  qed
next
  let ?ch = "getChannelData b 0"
  assume a: "length ?ch \<noteq> 1 \<and> constant_sign ?ch"
  then have "zcr_loop ?ch 1 0 = 0" by (simp add: constant_sign_def zcr_loop_constant)
  then show "calculateZeroCrossingRate b = Finite 0" using a
    by (simp add: calculateZeroCrossingRate_def js_div_def Let_def)
next
  let ?ch = "getChannelData b 0"
  assume a: "2 \<le> n \<and> ?ch = alternating_signal n"
  then have "zcr_loop ?ch 1 0 = n - 1" by (simp add: zcr_loop_alternating)
  moreover have "length ?ch = n" using a by (simp add: alternating_signal_def)
  ultimately show "calculateZeroCrossingRate b = Finite 1" using a
    by (simp add: calculateZeroCrossingRate_def js_div_def Let_def of_nat_diff)
next
  let ?ch = "getChannelData b 0"
  assume a: "length ?ch = 1"
  then show "calculateZeroCrossingRate b = NaN"
    by (simp add: calculateZeroCrossingRate_def js_div_def Let_def zcr_loop.simps)
qed


text \<open>C5 as stated fails on a buffer of one sample: the rate is not a number in \<open>[0, 1]\<close>.\<close>

theorem zcr_counterexample:
  "\<not> (\<exists>r. calculateZeroCrossingRate
        \<lparr> AudioBuffer.sampleRate = 44100, AudioBuffer.duration = 1 / 44100,
          channel0 = [1 / 2], otherChannels = [] \<rparr> = Finite r \<and> 0 \<le> r \<and> r \<le> 1)"
  by (simp add: calculateZeroCrossingRate_def getChannelData_def js_div_def zcr_loop.simps)

theorem zcr_amended_witness:
  "calculateZeroCrossingRate
     \<lparr> AudioBuffer.sampleRate = 44100, AudioBuffer.duration = 3 / 44100,
       channel0 = [1, - 1, 1], otherChannels = [] \<rparr> = Finite 1 \<and>
   calculateZeroCrossingRate
     \<lparr> AudioBuffer.sampleRate = 44100, AudioBuffer.duration = 2 / 44100,
       channel0 = [1 / 2, 1 / 4], otherChannels = [] \<rparr> = Finite 0 \<and>
   calculateZeroCrossingRate
     \<lparr> AudioBuffer.sampleRate = 44100, AudioBuffer.duration = 1 / 44100,
       channel0 = [1 / 2], otherChannels = [] \<rparr> = NaN"
proof -
  have alt: "[1, - 1, 1] = alternating_signal 3"
    by (simp add: alternating_signal_def upt_rec numeral_3_eq_3)
  show ?thesis
    using zcr_amended [of "\<lparr> AudioBuffer.sampleRate = 44100, AudioBuffer.duration = 3 / 44100,
       channel0 = [1, - 1, 1], otherChannels = [] \<rparr>" 3]
      zcr_amended [of "\<lparr> AudioBuffer.sampleRate = 44100, AudioBuffer.duration = 2 / 44100,
       channel0 = [1 / 2, 1 / 4], otherChannels = [] \<rparr>" 0]
      zcr_amended [of "\<lparr> AudioBuffer.sampleRate = 44100, AudioBuffer.duration = 1 / 44100,
       channel0 = [1 / 2], otherChannels = [] \<rparr>" 0]
    by (simp add: getChannelData_def constant_sign_def alt)
qed

subsection \<open>The aggregate result and the inputs read\<close>

text \<open>
  C10: for every input buffer, the result of \<open>analyzeAudio\<close> has bit depth 16, its sample
  rate, channel count and duration are those of the buffer, and its tempo and key are null.
\<close>

theorem analyzeAudio_format:
  "bitDepth (format (analyzeAudio b)) = 16 \<and>
   AudioFormat.sampleRate (format (analyzeAudio b)) = AudioBuffer.sampleRate b \<and>
   channels (format (analyzeAudio b)) = numberOfChannels b \<and>
   AudioFormat.duration (format (analyzeAudio b)) = AudioBuffer.duration b \<and>
   tempo (analyzeAudio b) = None \<and>
   key (analyzeAudio b) = None"
  by (simp add: analyzeAudio_def Let_def)

text \<open>
  The value-passing functions read only channel 0 and the sample rate of the buffer.
\<close>

lemma pure_analysis_depends_on_channel0:
  assumes "getChannelData b1 0 = getChannelData b2 0"
    and "AudioBuffer.sampleRate b1 = AudioBuffer.sampleRate b2"
  shows "calculateSpectralCentroid b1 = calculateSpectralCentroid b2 \<and>
         calculateZeroCrossingRate b1 = calculateZeroCrossingRate b2 \<and>
         calculateMFCC b1 = calculateMFCC b2 \<and>
         detectPolyphony b1 = detectPolyphony b2"
  using assms
  by (simp add: calculateSpectralCentroid_def calculateZeroCrossingRate_def
      calculateMFCC_def detectPolyphony_def)

subsection \<open>The frame loops\<close>

text \<open>
  C3 at a channel whose length equals the frame size: the loop condition
  \<open>i < channelData.length - frameSize\<close> is \<open>0 < 0\<close>, so no frame is analysed. The polyphony
  loop counts zero frames on 2048 samples, the centroid loop counts zero frames on 2048
  samples, and the coefficient loop pushes nothing on 1024 samples.
\<close>

theorem exact_fit_channel_not_analysed:
  "polyphony_frames (replicate 2048 1) 0 0 0 = (0, 0) \<and>
   centroid_frames (replicate 2048 1) 44100 0 0 0 = (0, 0) \<and>
   mfcc_frames (replicate 1024 1) 44100 0 [] = []"
  by (simp add: polyphony_frames.simps centroid_frames.simps mfcc_frames.simps)

subsection \<open>Coefficient vector\<close>

lemma mfcc_coeffs_eq:
  "mfcc_coeffs sr n j fs = fs @ map (\<lambda>k. hzToMel ((real k * sr) / real n)) [j..<13]"
proof (induction sr n j fs rule: mfcc_coeffs.induct)
  case (1 sr n j fs)
  show ?case
  proof (cases "j < 13")
    case True
    then show ?thesis
      using "1.IH"[OF True refl]
      by (subst mfcc_coeffs.simps) (simp add: upt_conv_Cons)
  next
    case False
    then show ?thesis by (subst mfcc_coeffs.simps) simp
  qed
qed

lemma mfcc_frames_prefix: "\<exists>rest. mfcc_frames ch sr i fs = fs @ rest"
proof (induction ch sr i fs rule: mfcc_frames.induct)
  case (1 ch sr i fs)
  show ?case
  proof (cases "int i < int (length ch) - 1024")
    case True
    from "1.IH"[OF True refl refl] obtain rest where
      "mfcc_frames ch sr (i + 512)
         (mfcc_coeffs sr (length (fft (slice ch i (i + 1024)))) 0 fs) =
       mfcc_coeffs sr (length (fft (slice ch i (i + 1024)))) 0 fs @ rest"
      by blast
    then show ?thesis using True
      by (subst mfcc_frames.simps) (simp add: mfcc_coeffs_eq Let_def)
  next
    case False
    then show ?thesis by (subst mfcc_frames.simps) simp
  qed
qed

lemma calculateMFCC_value:
  assumes "1024 < length (getChannelData b 0)"
  shows "calculateMFCC b =
           map (\<lambda>k. 2595 * log 10 (1 + (real k * AudioBuffer.sampleRate b / 1024) / 700)) [0..<13]"
proof -
  let ?ch = "getChannelData b 0" and ?sr = "AudioBuffer.sampleRate b"
  let ?first = "mfcc_coeffs ?sr (length (fft (slice ?ch 0 (0 + 1024)))) 0 []"
  have len: "length (fft (slice ?ch 0 (0 + 1024))) = 1024"
    using assms by (simp add: length_slice)
  obtain rest where r: "mfcc_frames ?ch ?sr (0 + 512) ?first = ?first @ rest"
    using mfcc_frames_prefix by blast
  have "mfcc_frames ?ch ?sr 0 [] = ?first @ rest"
    using assms r by (subst mfcc_frames.simps) (simp add: Let_def)
  moreover have f: "?first = map (\<lambda>k. hzToMel ((real k * ?sr) / 1024)) [0..<13]"
    by (simp only: mfcc_coeffs_eq len append_Nil of_nat_numeral)
  moreover have "length ?first = 13" by (simp only: f length_map length_upt)
  ultimately have "slice (mfcc_frames ?ch ?sr 0 []) 0 13 = ?first"
    by (simp only: slice_def drop_0 take_append) simp
  then show ?thesis
    by (simp only: calculateMFCC_def Let_def f hzToMel_def)
qed

lemma calculateMFCC_short:
  assumes "length (getChannelData b 0) < 1024"
  shows "calculateMFCC b = []"
proof -
  have "mfcc_frames (getChannelData b 0) (AudioBuffer.sampleRate b) 0 [] = []"
    using assms by (subst mfcc_frames.simps) simp
  then show ?thesis by (simp add: calculateMFCC_def Let_def slice_def)
qed

text \<open>
  C6 at a buffer of exactly 1024 samples, which holds one full frame: the frame loop does
  not run and the coefficient vector is empty, so it has no entry \<open>k\<close>.
\<close>

theorem mfcc_exact_fit_empty:
  "calculateMFCC \<lparr> AudioBuffer.sampleRate = 44100, AudioBuffer.duration = 1024 / 44100,
       channel0 = replicate 1024 (1 / 2), otherChannels = [] \<rparr> = []"
  by (simp add: calculateMFCC_def getChannelData_def mfcc_frames.simps slice_def)


text \<open>
  C7, as the code has it: the coefficient vector has length 13 for every buffer whose
  channel 0 has more than 1024 samples, and it is empty for every buffer whose channel 0
  has fewer than 1024 samples.
\<close>

theorem mfcc_length_amended:
  "(1024 < length (getChannelData b 0) \<longrightarrow> length (calculateMFCC b) = 13) \<and>
   (length (getChannelData b 0) < 1024 \<longrightarrow> length (calculateMFCC b) = 0)"
proof (intro conjI impI)
  assume "1024 < length (getChannelData b 0)"
  then show "length (calculateMFCC b) = 13" by (simp only: calculateMFCC_value length_map length_upt)
next
  assume "length (getChannelData b 0) < 1024"
  then show "length (calculateMFCC b) = 0" by (simp only: calculateMFCC_short list.size)
qed

text \<open>C7 as stated fails on a buffer of three samples: the vector does not have length 13.\<close>

theorem mfcc_length_counterexample:
  "length (calculateMFCC \<lparr> AudioBuffer.sampleRate = 44100, AudioBuffer.duration = 3 / 44100,
       channel0 = [1 / 2, - 1 / 2, 1 / 4], otherChannels = [] \<rparr>) \<noteq> 13"
  by (simp add: calculateMFCC_def getChannelData_def mfcc_frames.simps slice_def)

theorem mfcc_length_amended_witness:
  "length (calculateMFCC \<lparr> AudioBuffer.sampleRate = 44100, AudioBuffer.duration = 1025 / 44100,
       channel0 = replicate 1025 (1 / 2), otherChannels = [] \<rparr>) = 13 \<and>
   length (calculateMFCC \<lparr> AudioBuffer.sampleRate = 44100, AudioBuffer.duration = 3 / 44100,
       channel0 = [1 / 2, - 1 / 2, 1 / 4], otherChannels = [] \<rparr>) = 0"
  using mfcc_length_amended [of "\<lparr> AudioBuffer.sampleRate = 44100,
       AudioBuffer.duration = 1025 / 44100,
       channel0 = replicate 1025 (1 / 2), otherChannels = [] \<rparr>"]
    mfcc_length_amended [of "\<lparr> AudioBuffer.sampleRate = 44100,
       AudioBuffer.duration = 3 / 44100,
       channel0 = [1 / 2, - 1 / 2, 1 / 4], otherChannels = [] \<rparr>"]
  by (simp add: getChannelData_def)

subsection \<open>Spectral centroid\<close>

lemma half_iff: "(real j < real n / 2) = (j < (n + 1) div 2)"
proof -
  have "(real j < real n / 2) = (2 * j < n)" by (simp add: field_simps) linarith
  also have "\<dots> = (j < (n + 1) div 2)" by arith
  finally show ?thesis .
qed

lemma centroid_bins_eq:
  "centroid_bins m sr j ws ms =
     (ws + (\<Sum>k\<leftarrow>[j..<(length m + 1) div 2]. (real k * sr / real (length m)) * m ! k),
      ms + (\<Sum>k\<leftarrow>[j..<(length m + 1) div 2]. m ! k))"
proof (induction m sr j ws ms rule: centroid_bins.induct)
  case (1 m sr j ws ms)
  define h where "h = (length m + 1) div 2"
  show ?case
  proof (cases "real j < real (length m) / 2")
    case True
    then have lt: "j < h" by (simp add: half_iff h_def)
    have up: "[j..<h] = j # [j + 1..<h]" using lt by (simp add: upt_conv_Cons)
    have step: "centroid_bins m sr j ws ms =
        centroid_bins m sr (j + 1) (ws + (real j * sr) / real (length m) * m ! j) (ms + m ! j)"
      using True by (subst centroid_bins.simps) (simp add: Let_def)
    show ?thesis
      unfolding step "1.IH"[OF True refl refl] h_def[symmetric] up
      by (simp add: algebra_simps)
  next
    case False
    then have "\<not> j < h" by (simp add: half_iff h_def)
    then show ?thesis using False unfolding h_def[symmetric]
      by (subst centroid_bins.simps) simp
  qed
qed

lemma centroid_bins_frame:
  assumes "length m = 2048"
  shows "centroid_bins m sr 0 0 0 =
           (\<Sum>i\<leftarrow>[0..<length m div 2]. (real i * sr / real (length m)) * m ! i,
            spec_magnitude_sum m)"
proof -
  have h: "(length m + 1) div 2 = length m div 2" using assms by simp
  show ?thesis unfolding centroid_bins_eq h spec_magnitude_sum_def by simp
qed

lemma spec_magnitude_sum_nonneg:
  assumes "\<And>x. x \<in> set m \<Longrightarrow> 0 \<le> x"
  shows "0 \<le> spec_magnitude_sum m"
  unfolding spec_magnitude_sum_def
proof (rule sum_list_nonneg)
  fix x assume "x \<in> set (map ((!) m) [0..<length m div 2])"
  then obtain i where "i < length m div 2" "x = m ! i" by auto
  then have "x \<in> set m" by (auto intro: nth_mem)
  then show "0 \<le> x" by (rule assms)
qed

lemma analysed_offsets_step:
  "int i < int len - int frameSize \<Longrightarrow>
     analysed_offsets len frameSize i = i # analysed_offsets len frameSize (i + 512)"
  by (subst analysed_offsets.simps) simp

lemma analysed_offsets_stop:
  "\<not> int i < int len - int frameSize \<Longrightarrow> analysed_offsets len frameSize i = []"
  by (subst analysed_offsets.simps) simp

lemma centroid_frames_eq:
  "centroid_frames ch sr i t c =
     (t + sum_list (map (spec_frame_centroid sr) (sounding_spectra ch i)),
      c + length (sounding_spectra ch i))"
proof (induction ch sr i t c rule: centroid_frames.induct)
  case (1 ch sr i t c)
  show ?case
  proof (cases "int i < int (length ch) - 2048")
    case True
    define m where "m = fft (slice ch i (i + 2048))"
    define W where "W = (\<Sum>i\<leftarrow>[0..<length m div 2]. (real i * sr / real (length m)) * m ! i)"
    define M where "M = spec_magnitude_sum m"
    have len: "length m = 2048" using True by (simp add: m_def length_slice)
    have nonneg: "0 \<le> M"
      unfolding M_def by (rule spec_magnitude_sum_nonneg) (simp add: m_def fft_nonneg)
    have bins: "(W, M) = centroid_bins (fft (slice ch i (i + 2048))) sr 0 0 0"
      using centroid_bins_frame[OF len, of sr] by (simp add: W_def M_def m_def)
    have cen: "W / M = spec_frame_centroid sr m"
      by (simp add: spec_frame_centroid_def W_def M_def)
    have off: "sounding_spectra ch i =
        (if M \<noteq> 0 then [m] else []) @ sounding_spectra ch (i + 512)"
      using True by (simp add: sounding_spectra_def analysed_offsets_step m_def M_def)
    show ?thesis
    proof (cases "0 < M")
      case pos: True
      have "centroid_frames ch sr i t c =
          centroid_frames ch sr (i + 512) (t + W / M) (c + 1)"
        using True pos
        by (subst centroid_frames.simps) (simp add: Let_def bins[symmetric])
      then show ?thesis
        using "1.IH"(1)[OF True refl refl refl bins pos] pos
        by (simp add: off cen)
    next
      case zero: False
      with nonneg have z: "M = 0" by simp
      have "centroid_frames ch sr i t c = centroid_frames ch sr (i + 512) t c"
        using True z
        by (subst centroid_frames.simps) (simp add: Let_def bins[symmetric])
      then show ?thesis
        using "1.IH"(2)[OF True refl refl refl bins zero] z
        by (simp add: off)
    qed
  next
    case False
    then show ?thesis
      by (subst centroid_frames.simps) (simp add: sounding_spectra_def analysed_offsets_stop)
  qed
qed

text \<open>
  C2: \<open>calculateSpectralCentroid\<close> computes, for each analysed frame, the centroid
  \<open>\<Sum>(freq_i * magnitude_i) / \<Sum>(magnitude_i)\<close> over the first half of the magnitude bins with
  \<open>freq_i = i * sampleRate / frameLength\<close>; frames whose magnitude sum is zero add nothing to
  the total nor to the frame count; the result is the mean of the per-frame centroids, and
  0 when no frame has a non-zero magnitude sum. The analysed frames are those of the loop
  header (\<open>analysed_frames\<close>).
\<close>

theorem spectralCentroid_refines:
  "calculateSpectralCentroid b = spec_spectralCentroid b"
proof -
  have "sounding_spectra (getChannelData b 0) 0 =
      filter (\<lambda>m. spec_magnitude_sum m \<noteq> 0) (map fft (analysed_frames (getChannelData b 0) 2048))"
    by (simp add: sounding_spectra_def analysed_frames_def comp_def)
  then show ?thesis
    by (simp add: calculateSpectralCentroid_def spec_spectralCentroid_def centroid_frames_eq Let_def)
qed


subsection \<open>Polyphony\<close>

lemma peak_loop_eq:
  "1 \<le> j \<Longrightarrow>
   peak_loop m thr j c =
     c + length (filter (\<lambda>k. m ! k > thr \<and> m ! k > m ! (k - 1) \<and> m ! k > m ! (k + 1))
                   [j..<length m - 1])"
proof (induction m thr j c rule: peak_loop.induct)
  case (1 m thr j c)
  show ?case
  proof (cases "int j < int (length m) - 1")
    case True
    then have lt: "j < length m - 1" by linarith
    have up: "[j..<length m - 1] = j # [j + 1..<length m - 1]"
      using lt by (simp add: upt_conv_Cons)
    show ?thesis
    proof (cases "m ! j > thr \<and> m ! j > m ! (j - 1) \<and> m ! j > m ! (j + 1)")
      case pk: True
      have "peak_loop m thr j c = peak_loop m thr (j + 1) (c + 1)"
        using True pk by (subst peak_loop.simps) simp
      then show ?thesis
        using "1.IH"(1)[OF True pk] pk unfolding up by simp
    next
      case npk: False
      have "peak_loop m thr j c = peak_loop m thr (j + 1) c"
        using True npk by (subst peak_loop.simps) auto
      then show ?thesis
        using "1.IH"(2)[OF True npk] npk unfolding up by auto
    qed
  next
    case False
    then have "\<not> j < length m - 1" by linarith
    then show ?thesis using False by (subst peak_loop.simps) simp
  qed
qed

lemma peak_loop_from_1:
  "peak_loop m thr 1 0 =
     length (filter (\<lambda>k. m ! k > thr \<and> m ! k > m ! (k - 1) \<and> m ! k > m ! (k + 1))
               [1..<length m - 1])"
  using peak_loop_eq[of 1 m thr 0] by simp

lemma peak_loop_spec:
  "peak_loop m (Math_max m * 0.1) 1 0 = spec_peak_count m"
proof -
  have "spec_is_peak m =
      (\<lambda>k. m ! k > Math_max m * 0.1 \<and> m ! k > m ! (k - 1) \<and> m ! k > m ! (k + 1))"
    by (rule ext) (simp only: spec_is_peak_def Math_max_def)
  then show ?thesis
    by (simp only: peak_loop_from_1 spec_peak_count_def)
qed

lemma polyphony_frames_eq:
  "polyphony_frames ch i p t =
     (p + length (filter spec_polyphonic_frame (analysed_spectra ch i)),
      t + length (analysed_spectra ch i))"
proof (induction ch i p t rule: polyphony_frames.induct)
  case (1 ch i p t)
  show ?case
  proof (cases "int i < int (length ch) - 2048")
    case True
    define m where "m = fft (slice ch i (i + 2048))"
    have off: "analysed_spectra ch i = m # analysed_spectra ch (i + 512)"
      using True by (simp add: analysed_spectra_def analysed_offsets_step m_def)
    have pk: "spec_peak_count m = peak_loop m (Math_max m * 0.1) 1 0"
      by (simp only: peak_loop_spec)
    have step: "polyphony_frames ch i p t =
        (if spec_peak_count m > 3
         then polyphony_frames ch (i + 512) (p + 1) (t + 1)
         else polyphony_frames ch (i + 512) p (t + 1))"
      by (subst polyphony_frames.simps) (simp only: True if_True Let_def peak_loop_spec m_def)
    show ?thesis
    proof (cases "spec_peak_count m > 3")
      case poly: True
      have "3 < peak_loop (fft (slice ch i (i + 2048)))
                 (Math_max (fft (slice ch i (i + 2048))) * 0.1) 1 0"
        using poly unfolding m_def peak_loop_spec .
      from "1.IH"(1)[OF True refl refl refl refl this] poly show ?thesis
        by (simp add: step off spec_polyphonic_frame_def)
    next
      case mono: False
      have "\<not> 3 < peak_loop (fft (slice ch i (i + 2048)))
                 (Math_max (fft (slice ch i (i + 2048))) * 0.1) 1 0"
        using mono unfolding m_def peak_loop_spec .
      from "1.IH"(2)[OF True refl refl refl refl this] mono show ?thesis
        by (simp add: step off spec_polyphonic_frame_def)
    qed
  next
    case False
    then show ?thesis
      by (subst polyphony_frames.simps) (simp add: analysed_spectra_def analysed_offsets_stop)
  qed
qed

text \<open>
  C4: \<open>detectPolyphony\<close> is true exactly when at least one frame is analysed and the fraction
  of polyphonic frames exceeds 0.3, where a frame is polyphonic when it has more than 3
  peaks and a peak is a bin, not the first and not the last, whose magnitude exceeds 10% of
  the frame's maximum and is strictly greater than both neighbours; with no analysed frame
  the result is false.
\<close>

theorem detectPolyphony_refines:
  "detectPolyphony b = spec_detectPolyphony b"
proof -
  have "analysed_spectra (getChannelData b 0) 0 =
      map fft (analysed_frames (getChannelData b 0) 2048)"
    by (simp add: analysed_spectra_def analysed_frames_def comp_def)
  then show ?thesis
    by (simp add: detectPolyphony_def spec_detectPolyphony_def polyphony_frames_eq Let_def)
qed

subsection \<open>The transform equals the reference transform\<close>

paragraph \<open>Bit reversal\<close>

lemma and_pow2_small: "j < 2 ^ n \<Longrightarrow> j AND 2 ^ n = (0::nat)"
  by (simp add: and_exp_eq_0_iff_not_bit bit_iff_odd)

lemma xor_pow2_small: "j < 2 ^ n \<Longrightarrow> j XOR 2 ^ n = j + (2::nat) ^ n"
  by (simp add: disjunctive_add_eq_xor and_pow2_small)

lemma and_pow2_big: "r < 2 ^ n \<Longrightarrow> (2 ^ n + r) AND 2 ^ n \<noteq> (0::nat)"
  by (simp add: and_exp_eq_0_iff_not_bit bit_iff_odd)

lemma xor_pow2_big: "r < 2 ^ n \<Longrightarrow> (2 ^ n + r) XOR 2 ^ n = (r::nat)"
proof -
  assume r: "r < 2 ^ n"
  have "(2 ^ n + r) XOR 2 ^ n = (r XOR 2 ^ n) XOR 2 ^ n"
    using xor_pow2_small[OF r] by (simp add: add.commute)
  also have "\<dots> = r" by (simp add: xor.assoc)
  finally show ?thesis .
qed

lemma bitrev_less: "bitrev k i < 2 ^ k"
proof (induction k arbitrary: i)
  case 0
  show ?case by simp
next
  case (Suc k)
  have "bitrev k (i div 2) < 2 ^ k" by (rule Suc.IH)
  then show ?case by (cases "even i") (simp_all add: mod2_eq_if)
qed

lemma bitrev_while_inc:
  "i + 1 < 2 ^ n \<Longrightarrow> bitrev_while (bitrev n i) (2 ^ (n - 1)) = (j1, b1) \<Longrightarrow>
     j1 XOR b1 = bitrev n (i + 1)"
proof (induction n arbitrary: i j1 b1)
  case 0
  then show ?case by simp
next
  case (Suc n)
  define r where "r = bitrev n (i div 2)"
  have r: "r < 2 ^ n" unfolding r_def by (rule bitrev_less)
  show ?case
  proof (cases "even i")
    case True
    then have j: "bitrev (Suc n) i = r" by (simp add: r_def)
    have "bitrev_while r (2 ^ n) = (r, 2 ^ n)"
      by (subst bitrev_while.simps) (simp add: and_pow2_small[OF r])
    with Suc.prems(2)[unfolded j] have "j1 = r" "b1 = 2 ^ n" by simp_all
    moreover have "bitrev (Suc n) (i + 1) = 2 ^ n + r"
      using True by (auto simp: r_def elim!: evenE)
    ultimately show ?thesis by (simp add: xor_pow2_small[OF r])
  next
    case False
    then have j: "bitrev (Suc n) i = 2 ^ n + r" by (simp add: r_def mod2_eq_if)
    from False Suc.prems(1) have n: "0 < n" by (cases n) auto
    have i': "i div 2 + 1 < 2 ^ n" using False Suc.prems(1) by (auto elim!: oddE)
    from n obtain m where m: "n = Suc m" by (cases n) auto
    have half: "drop_bit 1 ((2::nat) ^ n) = 2 ^ (n - 1)"
      by (simp add: m drop_bit_eq_div)
    have "bitrev_while (2 ^ n + r) (2 ^ n) = bitrev_while r (2 ^ (n - 1))"
      by (subst bitrev_while.simps)
        (simp only: and_pow2_big[OF r] xor_pow2_big[OF r] half not_False_eq_True if_True)
    with Suc.prems(2)[unfolded j] have "bitrev_while (bitrev n (i div 2)) (2 ^ (n - 1)) = (j1, b1)"
      by (simp add: r_def)
    from Suc.IH[OF i' this] have "j1 XOR b1 = bitrev n (i div 2 + 1)" .
    moreover have "bitrev (Suc n) (i + 1) = bitrev n (i div 2 + 1)"
      using False by (auto elim!: oddE)
    ultimately show ?thesis by simp
  qed
qed

lemma bitrev_alt: "bitrev (Suc n) b = 2 * bitrev n (b mod 2 ^ n) + (b div 2 ^ n) mod 2"
proof (induction n arbitrary: b)
  case 0
  show ?case by simp
next
  case (Suc n)
  have "bitrev (Suc (Suc n)) b = (b mod 2) * 2 ^ Suc n + bitrev (Suc n) (b div 2)" by simp
  also have "\<dots> = (b mod 2) * 2 ^ Suc n + (2 * bitrev n ((b div 2) mod 2 ^ n) + ((b div 2) div 2 ^ n) mod 2)"
    by (simp only: Suc.IH)
  also have "(b div 2) mod 2 ^ n = (b mod 2 ^ Suc n) div 2"
    using mod_mult2_eq[of b 2 "2 ^ n"] by simp
  also have "(b div 2) div 2 ^ n = b div 2 ^ Suc n"
    by (simp add: div_mult2_eq)
  also have "b mod 2 = (b mod 2 ^ Suc n) mod 2"
    by (simp add: mod_mod_cancel)
  finally show ?case by simp
qed

lemma bitrev_involution: "b < 2 ^ n \<Longrightarrow> bitrev n (bitrev n b) = b"
proof (induction n arbitrary: b)
  case 0
  then show ?case by simp
next
  case (Suc n)
  define q where "q = b div 2"
  have q: "q < 2 ^ n" using Suc.prems by (simp add: q_def)
  have r: "bitrev n q < 2 ^ n" by (rule bitrev_less)
  have "bitrev (Suc n) b = (b mod 2) * 2 ^ n + bitrev n q" by (simp add: q_def)
  then have "bitrev (Suc n) (bitrev (Suc n) b) =
      2 * bitrev n (((b mod 2) * 2 ^ n + bitrev n q) mod 2 ^ n)
      + (((b mod 2) * 2 ^ n + bitrev n q) div 2 ^ n) mod 2"
    by (simp only: bitrev_alt)
  also have "((b mod 2) * 2 ^ n + bitrev n q) mod 2 ^ n = bitrev n q" using r by simp
  also have "((b mod 2) * 2 ^ n + bitrev n q) div 2 ^ n = b mod 2" using r by simp
  finally show ?case using Suc.IH[OF q] by (simp add: q_def)
qed

paragraph \<open>Copying and permuting the frame\<close>

lemma length_cset [simp]: "length (cset out p z) = length out"
  by (simp add: cset_def)

lemma cplx_cset:
  "p * 2 + 1 < length out \<Longrightarrow>
     cplx (cset out p z) q = (if q = p then z else cplx out q)"
  by (auto simp: cplx_def cset_def nth_list_update complex_eq_iff)

lemma fft_copy_correct:
  "length out = length signal * 2 \<Longrightarrow>
   length (fft_copy signal i out) = length out \<and>
   (\<forall>p<length signal. cplx (fft_copy signal i out) p =
       (if p < i then cplx out p else of_real (signal ! p)))"
proof (induction "length signal - i" arbitrary: i out)
  case 0
  then have "\<not> i < length signal" by simp
  then show ?case by (subst (1 2) fft_copy.simps) simp
next
  case (Suc d)
  then have lt: "i < length signal" by simp
  define out1 where "out1 = cset out i (of_real (signal ! i))"
  have step: "fft_copy signal i out = fft_copy signal (i + 1) out1"
    using lt by (subst fft_copy.simps) (simp add: out1_def cset_def)
  have d: "d = length signal - (i + 1)" using Suc.hyps(2) by simp
  have len1: "length out1 = length signal * 2" using Suc.prems by (simp add: out1_def)
  have inr: "i * 2 + 1 < length out" using lt Suc.prems by simp
  from Suc.hyps(1)[OF d len1] show ?case
    unfolding step using Suc.prems
    by (auto simp: out1_def cplx_cset[OF inr] less_Suc_eq)
qed

lemma swap_complex_correct:
  assumes "i * 2 + 1 < length out" "j * 2 + 1 < length out" "i \<noteq> j"
  shows "length (swap_complex out i j) = length out"
    and "cplx (swap_complex out i j) q =
           (if q = i then cplx out j else if q = j then cplx out i else cplx out q)"
  using assms by (auto simp: swap_complex_def cplx_def Let_def nth_list_update)

lemma bitrev_zero [simp]: "bitrev k 0 = 0"
  by (induction k) simp_all

lemma fft_bitrev_step:
  assumes "N = 2 ^ k" "1 \<le> i" "i < N" "j = bitrev k (i - 1)"
  shows "fft_bitrev N i j out =
           fft_bitrev N (i + 1) (bitrev k i)
             (if i < bitrev k i then swap_complex out i (bitrev k i) else out)"
proof -
  from assms have k: "0 < k" by (cases k) auto
  then obtain k' where k': "k = Suc k'" by (cases k) auto
  have bt: "drop_bit (Suc 0) N = 2 ^ (k - 1)"
    using assms(1) by (simp add: k' drop_bit_eq_div)
  obtain j1 b1 where w: "bitrev_while j (2 ^ (k - 1)) = (j1, b1)" by (cases "bitrev_while j (2 ^ (k - 1))")
  have "i - 1 + 1 < 2 ^ k" using assms by simp
  from bitrev_while_inc[OF this w[unfolded assms(4)]] assms(2)
  have j': "j1 XOR b1 = bitrev k i" by simp
  show ?thesis
    using assms(3) w j'
    by (subst fft_bitrev.simps) (simp add: bt Let_def)
qed

lemma fft_bitrev_correct:
  assumes "N = 2 ^ k" "length out = N * 2" "1 \<le> i" "i \<le> N" "j = bitrev k (i - 1)"
    and "\<forall>p<N. cplx out p = (if min p (bitrev k p) < i then x (bitrev k p) else x p)"
  shows "length (fft_bitrev N i j out) = length out \<and>
         (\<forall>p<N. cplx (fft_bitrev N i j out) p = x (bitrev k p))"
  using assms
proof (induction "N - i" arbitrary: i j out)
  case 0
  then have "\<not> i < N" "i = N" by simp_all
  then have "fft_bitrev N i j out = out" by (subst fft_bitrev.simps) simp
  moreover have "\<forall>p<N. cplx out p = x (bitrev k p)"
    using "0.prems"(6) \<open>i = N\<close> by (auto simp: min_def)
  ultimately show ?case by simp
next
  case (Suc d)
  then have lt: "i < N" by simp
  let ?r = "bitrev k"
  have r_lt: "?r p < N" for p using Suc.prems(1) by (simp add: bitrev_less)
  have r_inv: "?r (?r p) = p" if "p < N" for p
    using that Suc.prems(1) by (simp add: bitrev_involution)
  define out1 where "out1 = (if i < ?r i then swap_complex out i (?r i) else out)"
  have step: "fft_bitrev N i j out = fft_bitrev N (i + 1) (?r i) out1"
    unfolding out1_def by (rule fft_bitrev_step[OF Suc.prems(1,3) lt Suc.prems(5)])
  have len1: "length out1 = N * 2"
    using Suc.prems(2) lt r_lt[of i]
    by (simp add: out1_def swap_complex_correct(1))
  have inv1: "\<forall>p<N. cplx out1 p = (if min p (?r p) < i + 1 then x (?r p) else x p)"
  proof (intro allI impI)
    fix p assume p: "p < N"
    from Suc.prems(6) p have old: "cplx out p = (if min p (?r p) < i then x (?r p) else x p)"
      by blast
    show "cplx out1 p = (if min p (?r p) < i + 1 then x (?r p) else x p)"
    proof (cases "i < ?r i")
      case True
      have ci: "cplx out i = x i"
        using Suc.prems(6) lt True by (simp add: min_def)
      have cj: "cplx out (?r i) = x (?r i)"
        using Suc.prems(6) r_lt[of i] True r_inv[OF lt] by (simp add: min_def)
      have sw: "cplx out1 p = (if p = i then cplx out (?r i) else if p = ?r i then cplx out i else cplx out p)"
        using True Suc.prems(2) lt r_lt[of i]
        by (simp add: out1_def swap_complex_correct(2))
      show ?thesis
      proof (cases "p = i \<or> p = ?r i")
        case True
        then show ?thesis using sw ci cj r_inv[OF lt] \<open>i < ?r i\<close>
          by (auto simp: min_def)
      next
        case False
        then have "?r p \<noteq> i" using r_inv[OF p] by auto
        with False have "(min p (?r p) < i + 1) = (min p (?r p) < i)"
          by (auto simp: min_def)
        then show ?thesis using sw False old by simp
      qed
    next
      case False
      then have o: "out1 = out" by (simp add: out1_def)
      show ?thesis
      proof (cases "min p (?r p) = i")
        case True
        then have "p = i \<or> ?r p = i" by (auto simp: min_def split: if_splits)
        then have "p = i \<or> p = ?r i" using r_inv[OF p] by auto
        with True False have "p = i \<and> ?r i = i" using r_inv[OF lt]
          by (auto simp: min_def split: if_splits)
        then show ?thesis using old o by (simp add: min_def)
      next
        case False
        then have "(min p (?r p) < i + 1) = (min p (?r p) < i)" by auto
        then show ?thesis using old o by simp
      qed
    qed
  qed
  have d: "d = N - (i + 1)" using Suc.hyps(2) by simp
  from Suc.hyps(1)[OF d Suc.prems(1) len1 _ _ _ inv1, of "?r i"] lt
  have "length (fft_bitrev N (i + 1) (?r i) out1) = length out1 \<and>
        (\<forall>p<N. cplx (fft_bitrev N (i + 1) (?r i) out1) p = x (?r p))"
    by simp
  then show ?case unfolding step using len1 Suc.prems(2) by simp
qed

paragraph \<open>The butterflies of one block\<close>

lemma fft_butterflies_step:
  assumes "j < len div 2" "(i + j + len div 2) * 2 + 1 < length out"
  shows "fft_butterflies len wlr wli i j out wr wi =
     fft_butterflies len wlr wli i (j + 1)
       (cset (cset out (i + j)
                (cplx out (i + j) + cplx out (i + j + len div 2) * Complex wr wi))
             (i + j + len div 2)
             (cplx out (i + j) - cplx out (i + j + len div 2) * Complex wr wi))
       (Re (Complex wr wi * Complex wlr wli)) (Im (Complex wr wi * Complex wlr wli))"
  using assms
  by (subst fft_butterflies.simps) (simp add: Let_def cset_def cplx_def)

lemma fft_butterflies_correct:
  assumes "len div 2 = h" "(i + 2 * h) * 2 \<le> length out" "j \<le> h"
  shows "length (fft_butterflies len wlr wli i j out wr wi) = length out \<and>
    (\<forall>t<h. cplx (fft_butterflies len wlr wli i j out wr wi) (i + t) =
        (if j \<le> t
         then cplx out (i + t) + Complex wr wi * Complex wlr wli ^ (t - j) * cplx out (i + t + h)
         else cplx out (i + t))) \<and>
    (\<forall>t<h. cplx (fft_butterflies len wlr wli i j out wr wi) (i + h + t) =
        (if j \<le> t
         then cplx out (i + t) - Complex wr wi * Complex wlr wli ^ (t - j) * cplx out (i + t + h)
         else cplx out (i + h + t))) \<and>
    (\<forall>q. q * 2 + 1 < length out \<longrightarrow> (q < i \<or> i + 2 * h \<le> q) \<longrightarrow>
        cplx (fft_butterflies len wlr wli i j out wr wi) q = cplx out q)"
  using assms
proof (induction "h - j" arbitrary: j out wr wi)
  case 0
  then have "\<not> j < len div 2" "j = h" by simp_all
  then have "fft_butterflies len wlr wli i j out wr wi = out"
    by (subst fft_butterflies.simps) simp
  then show ?case using \<open>j = h\<close> by simp
next
  case (Suc d)
  then have lt: "j < h" by simp
  define w where "w = Complex wr wi"
  define wl where "wl = Complex wlr wli"
  define u where "u = cplx out (i + j)"
  define v where "v = cplx out (i + j + h) * w"
  define out1 where "out1 = cset (cset out (i + j) (u + v)) (i + j + h) (u - v)"
  have r1: "(i + j) * 2 + 1 < length out" and r2: "(i + j + h) * 2 + 1 < length out"
    using lt Suc.prems(2) by simp_all
  have step: "fft_butterflies len wlr wli i j out wr wi =
      fft_butterflies len wlr wli i (j + 1) out1 (Re (w * wl)) (Im (w * wl))"
    using fft_butterflies_step[of j len i out wlr wli wr wi] lt r2 Suc.prems(1)
    by (simp add: out1_def u_def v_def w_def wl_def)
  have c1: "cplx out1 q = (if q = i + j + h then u - v else if q = i + j then u + v else cplx out q)" for q
    using r1 r2 by (simp add: out1_def cplx_cset)
  have len1: "length out1 = length out" by (simp add: out1_def)
  have d: "d = h - (j + 1)" using Suc.hyps(2) by simp
  have ww: "Complex (Re (w * wl)) (Im (w * wl)) = w * wl" by (rule complex_surj)
  define res where
    "res = fft_butterflies len wlr wli i (j + 1) out1 (Re (w * wl)) (Im (w * wl))"
  note IH = Suc.hyps(1)[OF d Suc.prems(1), of out1 "Re (w * wl)" "Im (w * wl)",
      unfolded len1 ww res_def[symmetric] wl_def[symmetric], OF Suc.prems(2)]
  have j1: "j + 1 \<le> h" using lt by simp
  have IHa: "length res = length out" using IH[OF j1] by blast
  have IHb: "cplx res (i + t) =
        (if j + 1 \<le> t
         then cplx out1 (i + t) + w * wl * wl ^ (t - (j + 1)) * cplx out1 (i + t + h)
         else cplx out1 (i + t))" if "t < h" for t
    using IH[OF j1] that by blast
  have IHc: "cplx res (i + h + t) =
        (if j + 1 \<le> t
         then cplx out1 (i + t) - w * wl * wl ^ (t - (j + 1)) * cplx out1 (i + t + h)
         else cplx out1 (i + h + t))" if "t < h" for t
    using IH[OF j1] that by blast
  have IHd: "cplx res q = cplx out1 q" if "q * 2 + 1 < length out" "q < i \<or> i + 2 * h \<le> q" for q
    using IH[OF j1] that by blast
  have pw: "w * wl * wl ^ (t - (j + 1)) = w * wl ^ (t - j)" if "j < t" for t
  proof -
    from that have "t - j = Suc (t - (j + 1))" by simp
    then show ?thesis by (simp only: power_Suc mult.assoc)
  qed
  have o_top: "cplx out1 (i + t) = (if t = j then u + v else cplx out (i + t))" if "t < h" for t
    using that lt by (simp add: c1)
  have o_bot: "cplx out1 (i + t + h) = (if t = j then u - v else cplx out (i + t + h))" if "t < h" for t
    using that lt by (simp add: c1)
  have o_bot': "cplx out1 (i + h + t) = (if t = j then u - v else cplx out (i + h + t))" if "t < h" for t
    using o_bot[OF that] by (simp add: add.assoc add.commute[of h t])
  show ?case
    unfolding step w_def[symmetric] wl_def[symmetric] res_def[symmetric]
  proof (intro conjI allI impI)
    show "length res = length out" by (rule IHa)
  next
    fix t assume t: "t < h"
    show "cplx res (i + t) =
        (if j \<le> t then cplx out (i + t) + w * wl ^ (t - j) * cplx out (i + t + h)
         else cplx out (i + t))"
    proof (cases "j < t")
      case True
      then have jt: "j + 1 \<le> t" "t \<noteq> j" "j \<le> t" by simp_all
      have "cplx res (i + t) =
          cplx out1 (i + t) + w * wl * wl ^ (t - (j + 1)) * cplx out1 (i + t + h)"
        using IHb[OF t] jt(1) by simp
      also have "\<dots> = cplx out (i + t) + w * wl ^ (t - j) * cplx out (i + t + h)"
        using o_top[OF t] o_bot[OF t] jt(2) by (simp only: pw[OF True] if_False)
      finally show ?thesis using jt(3) by simp
    next
      case False
      then have nj: "\<not> j + 1 \<le> t" by simp
      show ?thesis
      proof (cases "t = j")
        case True
        have "cplx res (i + t) = cplx out1 (i + t)" using IHb[OF t] nj by simp
        also have "\<dots> = u + v" using o_top[OF t] True by simp
        finally show ?thesis using True by (simp add: u_def v_def mult.commute)
      next
        case False
        with \<open>\<not> j < t\<close> have njt: "\<not> j \<le> t" by simp
        have "cplx res (i + t) = cplx out1 (i + t)" using IHb[OF t] nj by simp
        also have "\<dots> = cplx out (i + t)" using o_top[OF t] False by simp
        finally show ?thesis using njt by simp
      qed
    qed
  next
    fix t assume t: "t < h"
    show "cplx res (i + h + t) =
        (if j \<le> t then cplx out (i + t) - w * wl ^ (t - j) * cplx out (i + t + h)
         else cplx out (i + h + t))"
    proof (cases "j < t")
      case True
      then have jt: "j + 1 \<le> t" "t \<noteq> j" "j \<le> t" by simp_all
      have "cplx res (i + h + t) =
          cplx out1 (i + t) - w * wl * wl ^ (t - (j + 1)) * cplx out1 (i + t + h)"
        using IHc[OF t] jt(1) by simp
      also have "\<dots> = cplx out (i + t) - w * wl ^ (t - j) * cplx out (i + t + h)"
        using o_top[OF t] o_bot[OF t] jt(2) by (simp only: pw[OF True] if_False)
      finally show ?thesis using jt(3) by simp
    next
      case False
      then have nj: "\<not> j + 1 \<le> t" by simp
      show ?thesis
      proof (cases "t = j")
        case True
        have "cplx res (i + h + t) = cplx out1 (i + h + t)" using IHc[OF t] nj by simp
        also have "\<dots> = u - v" using o_bot'[OF t] True by simp
        finally show ?thesis using True by (simp add: u_def v_def mult.commute)
      next
        case False
        with \<open>\<not> j < t\<close> have njt: "\<not> j \<le> t" by simp
        have "cplx res (i + h + t) = cplx out1 (i + h + t)" using IHc[OF t] nj by simp
        also have "\<dots> = cplx out (i + h + t)" using o_bot'[OF t] False by simp
        finally show ?thesis using njt by simp
      qed
    qed
  next
    fix q assume q: "q * 2 + 1 < length out" "q < i \<or> i + 2 * h \<le> q"
    then have "cplx out1 q = cplx out q" using lt by (auto simp: c1)
    then show "cplx res q = cplx out q" using IHd[OF q] by simp
  qed
qed

paragraph \<open>The blocks of one stage\<close>

lemma fft_block_correct:
  assumes "len div 2 = h" "(i + 2 * h) * 2 \<le> length out"
    and "res = fft_butterflies len wlr wli i 0 out 1 0"
  shows "length res = length out"
    and "\<And>t. t < h \<Longrightarrow> cplx res (i + t) =
           cplx out (i + t) + Complex wlr wli ^ t * cplx out (i + t + h)"
    and "\<And>t. t < h \<Longrightarrow> cplx res (i + h + t) =
           cplx out (i + t) - Complex wlr wli ^ t * cplx out (i + t + h)"
    and "\<And>q. q * 2 + 1 < length out \<Longrightarrow> q < i \<or> i + 2 * h \<le> q \<Longrightarrow> cplx res q = cplx out q"
proof -
  have one: "Complex 1 0 = 1" by (simp add: complex_eq_iff)
  note B = fft_butterflies_correct[OF assms(1,2), of 0 wlr wli 1 0, folded assms(3), unfolded one]
  show "length res = length out" using B by simp
  show "\<And>t. t < h \<Longrightarrow> cplx res (i + t) =
           cplx out (i + t) + Complex wlr wli ^ t * cplx out (i + t + h)"
    using B by simp
  show "\<And>t. t < h \<Longrightarrow> cplx res (i + h + t) =
           cplx out (i + t) - Complex wlr wli ^ t * cplx out (i + t + h)"
    using B by simp
  show "\<And>q. q * 2 + 1 < length out \<Longrightarrow> q < i \<or> i + 2 * h \<le> q \<Longrightarrow> cplx res q = cplx out q"
    using B by blast
qed

lemma fft_blocks_correct:
  assumes "len = 2 * h" "0 < h" "N = nb * len" "length out = N * 2" "i = b0 * len" "b0 \<le> nb"
  shows "length (fft_blocks N len wlr wli i out) = length out \<and>
    (\<forall>b<nb. \<forall>t<h.
        cplx (fft_blocks N len wlr wli i out) (b * len + t) =
          (if b0 \<le> b
           then cplx out (b * len + t) + Complex wlr wli ^ t * cplx out (b * len + t + h)
           else cplx out (b * len + t)) \<and>
        cplx (fft_blocks N len wlr wli i out) (b * len + h + t) =
          (if b0 \<le> b
           then cplx out (b * len + t) - Complex wlr wli ^ t * cplx out (b * len + t + h)
           else cplx out (b * len + h + t)))"
  using assms
proof (induction "nb - b0" arbitrary: b0 i out)
  case 0
  then have "b0 = nb" by simp
  then have "\<not> i < N" using "0.prems" by simp
  then have "fft_blocks N len wlr wli i out = out" by (subst fft_blocks.simps) simp
  then show ?case using \<open>b0 = nb\<close> by simp
next
  case (Suc d)
  then have lt: "b0 < nb" by simp
  have len0: "0 < len" using Suc.prems(1,2) by simp
  have hdiv: "len div 2 = h" using Suc.prems(1) by simp
  have "(b0 + 1) * len \<le> nb * len" using lt by (intro mult_le_mono1) simp
  then have iN: "i + len \<le> N" using Suc.prems(3,5) by (simp add: algebra_simps)
  then have i_lt: "i < N" using len0 by simp
  have rng: "(i + 2 * h) * 2 \<le> length out" using iN Suc.prems(1,4) by simp
  define out1 where "out1 = fft_butterflies len wlr wli i 0 out 1 0"
  note B = fft_block_correct[OF hdiv rng out1_def]
  define res where "res = fft_blocks N len wlr wli (i + len) out1"
  have step: "fft_blocks N len wlr wli i out = res"
    using i_lt len0 by (subst fft_blocks.simps) (simp add: out1_def res_def)
  have d: "d = nb - (b0 + 1)" using Suc.hyps(2) by simp
  have len1: "length out1 = N * 2" using B(1) Suc.prems(4) by simp
  have i1: "i + len = (b0 + 1) * len" using Suc.prems(5) by simp
  have b1: "b0 + 1 \<le> nb" using lt by simp
  note IH = Suc.hyps(1)[OF d Suc.prems(1,2,3) len1 i1 b1, folded res_def]
  have blk_lo: "(b + 1) * len \<le> b0 * len" if "b < b0" for b
    using that by (intro mult_le_mono1) simp
  have blk_hi: "(b0 + 1) * len \<le> b * len" if "b0 < b" for b
    using that by (intro mult_le_mono1) simp
  have blk_in: "(b + 1) * len \<le> nb * len" if "b < nb" for b
    using that by (intro mult_le_mono1) simp
  have same: "cplx out1 (b * len + t) = cplx out (b * len + t)"
    and same_h: "cplx out1 (b * len + t + h) = cplx out (b * len + t + h)"
    if "b < nb" "b \<noteq> b0" "t < h" for b t
  proof -
    have r: "(b * len + t + h) * 2 + 1 < length out"
      using blk_in[OF that(1)] that(3) Suc.prems(1,3,4) by (simp add: algebra_simps)
    have "b < b0 \<or> b0 < b" using that(2) by auto
    then have o: "b * len + t + h < i \<or> i + 2 * h \<le> b * len + t"
      using blk_lo[of b] blk_hi[of b] that(3) Suc.prems(1,5) by (auto simp: algebra_simps)
    show "cplx out1 (b * len + t) = cplx out (b * len + t)"
      by (rule B(4)) (use r o in auto)
    show "cplx out1 (b * len + t + h) = cplx out (b * len + t + h)"
      by (rule B(4)) (use r o in auto)
  qed
  show ?case unfolding step
  proof (intro conjI allI impI)
    show "length res = length out" using IH len1 Suc.prems(4) by simp
  next
    fix b t assume b: "b < nb" and t: "t < h"
    from IH b t have R: "cplx res (b * len + t) =
          (if b0 + 1 \<le> b
           then cplx out1 (b * len + t) + Complex wlr wli ^ t * cplx out1 (b * len + t + h)
           else cplx out1 (b * len + t))" by blast
    show "cplx res (b * len + t) =
          (if b0 \<le> b
           then cplx out (b * len + t) + Complex wlr wli ^ t * cplx out (b * len + t + h)
           else cplx out (b * len + t))"
    proof (cases "b = b0")
      case True
      then show ?thesis using R B(2)[OF t] Suc.prems(5) by simp
    next
      case False
      then show ?thesis using R same[OF b False t] same_h[OF b False t] by auto
    qed
  next
    fix b t assume b: "b < nb" and t: "t < h"
    from IH b t have R: "cplx res (b * len + h + t) =
          (if b0 + 1 \<le> b
           then cplx out1 (b * len + t) - Complex wlr wli ^ t * cplx out1 (b * len + t + h)
           else cplx out1 (b * len + h + t))" by blast
    have comm: "b * len + h + t = b * len + t + h" by simp
    show "cplx res (b * len + h + t) =
          (if b0 \<le> b
           then cplx out (b * len + t) - Complex wlr wli ^ t * cplx out (b * len + t + h)
           else cplx out (b * len + h + t))"
    proof (cases "b = b0")
      case True
      then show ?thesis using R B(3)[OF t] Suc.prems(5) by simp
    next
      case False
      then show ?thesis using R same[OF b False t] same_h[OF b False t]
        unfolding comm by auto
    qed
  qed
qed

paragraph \<open>Roots of unity and the splitting of the transform\<close>

lemma omega_sq: "0 < n \<Longrightarrow> omega (2 * n) ^ 2 = omega n"
  by (simp add: omega_def DeMoivre)

lemma omega_pow_n: "0 < n \<Longrightarrow> omega n ^ n = 1"
  by (simp add: omega_def DeMoivre complex_eq_iff)

lemma omega_half: "0 < n \<Longrightarrow> omega (2 * n) ^ n = - 1"
  by (simp add: omega_def DeMoivre complex_eq_iff)

lemma sum_even_odd:
  fixes f :: "nat \<Rightarrow> complex"
  shows "(\<Sum>m<2 * L. f m) = (\<Sum>m<L. f (2 * m)) + (\<Sum>m<L. f (2 * m + 1))"
  by (induction L) (simp_all add: algebra_simps)

lemma omega_even:
  assumes "0 < L"
  shows "omega (2 * L) ^ (j * (2 * m)) = omega L ^ (j * m)"
proof -
  have "j * (2 * m) = 2 * (j * m)" by simp
  then have "omega (2 * L) ^ (j * (2 * m)) = (omega (2 * L) ^ 2) ^ (j * m)"
    by (simp only: power_mult)
  also have "\<dots> = omega L ^ (j * m)" by (simp only: omega_sq[OF assms])
  finally show ?thesis .
qed

lemma omega_odd:
  assumes "0 < L"
  shows "omega (2 * L) ^ (j * (2 * m + 1)) = omega (2 * L) ^ j * omega L ^ (j * m)"
proof -
  have "j * (2 * m + 1) = j + j * (2 * m)" by (simp add: algebra_simps)
  then have "omega (2 * L) ^ (j * (2 * m + 1)) = omega (2 * L) ^ j * omega (2 * L) ^ (j * (2 * m))"
    by (simp only: power_add)
  also have "\<dots> = omega (2 * L) ^ j * omega L ^ (j * m)"
    by (simp only: omega_even[OF assms])
  finally show ?thesis .
qed

lemma omega_shift:
  assumes "0 < L"
  shows "omega L ^ ((j + L) * m) = omega L ^ (j * m)"
proof -
  have "(j + L) * m = j * m + L * m" by (simp add: algebra_simps)
  then have "omega L ^ ((j + L) * m) = omega L ^ (j * m) * (omega L ^ L) ^ m"
    by (simp only: power_add power_mult)
  also have "\<dots> = omega L ^ (j * m)" by (simp only: omega_pow_n[OF assms] power_one mult_1_right)
  finally show ?thesis .
qed

lemma sub_dft_split_lo:
  assumes "0 < L"
  shows "sub_dft x st (2 * L) off j =
           sub_dft x (2 * st) L off j + omega (2 * L) ^ j * sub_dft x (2 * st) L (off + st) j"
proof -
  have e: "x (off + 2 * m * st) * omega (2 * L) ^ (j * (2 * m)) =
           x (off + m * (2 * st)) * omega L ^ (j * m)" for m
  proof -
    have "2 * m * st = m * (2 * st)" by simp
    then show ?thesis by (simp only: omega_even[OF assms])
  qed
  have o: "x (off + (2 * m + 1) * st) * omega (2 * L) ^ (j * (2 * m + 1)) =
           omega (2 * L) ^ j * (x (off + st + m * (2 * st)) * omega L ^ (j * m))" for m
  proof -
    have "off + (2 * m + 1) * st = off + st + m * (2 * st)" by (simp add: algebra_simps)
    then show ?thesis by (simp only: omega_odd[OF assms] mult.left_commute mult.assoc)
  qed
  show ?thesis
    unfolding sub_dft_def sum_even_odd e o sum_distrib_left ..
qed

lemma sub_dft_split_hi:
  assumes "0 < L"
  shows "sub_dft x st (2 * L) off (j + L) =
           sub_dft x (2 * st) L off j - omega (2 * L) ^ j * sub_dft x (2 * st) L (off + st) j"
proof -
  have w: "omega (2 * L) ^ (j + L) = - (omega (2 * L) ^ j)"
    by (simp add: power_add omega_half[OF assms])
  have "sub_dft x st (2 * L) off (j + L) =
      sub_dft x (2 * st) L off (j + L)
      + omega (2 * L) ^ (j + L) * sub_dft x (2 * st) L (off + st) (j + L)"
    by (rule sub_dft_split_lo[OF assms])
  moreover have "sub_dft x (2 * st) L off' (j + L) = sub_dft x (2 * st) L off' j" for off'
    by (simp only: sub_dft_def omega_shift[OF assms])
  ultimately show ?thesis by (simp add: w)
qed

paragraph \<open>One stage\<close>

lemma stage_step:
  assumes "s < k" "stage_inv x k s out"
  shows "stage_inv x k (s + 1)
           (fft_blocks (2 ^ k) (2 ^ (s + 1)) (cos (- 2 * pi / real (2 ^ (s + 1) :: nat)))
              (sin (- 2 * pi / real (2 ^ (s + 1) :: nat))) 0 out)"
proof -
  define n where "n = k - (s + 1)"
  define h :: nat where "h = 2 ^ s"
  define len :: nat where "len = 2 ^ (s + 1)"
  define a where "a = - 2 * pi / real len"
  define res where "res = fft_blocks (2 ^ k) len (cos a) (sin a) 0 out"
  have ks: "k - s = Suc n" using assms(1) by (simp add: n_def)
  have len_h: "len = 2 * h" by (simp add: len_def h_def)
  have h0: "0 < h" by (simp add: h_def)
  have N: "(2::nat) ^ k = 2 ^ n * len"
  proof -
    have "k = n + (s + 1)" using assms(1) by (simp add: n_def)
    then show ?thesis unfolding len_def by (simp only: power_add)
  qed
  have lo: "length out = 2 ^ k * 2" using assms(2) by (simp add: stage_inv_def)
  have old: "cplx out (b * h + t) = sub_dft x (2 * 2 ^ n) h (bitrev (Suc n) b) t"
    if "b < 2 * 2 ^ n" "t < h" for b t
    using assms(2) that by (simp add: stage_inv_def ks h_def)
  have wl: "Complex (cos a) (sin a) = omega (2 * h)"
    by (simp add: omega_def a_def len_h complex_eq_iff)
  note B = fft_blocks_correct[OF len_h h0 N lo, of 0 0 "cos a" "sin a", simplified,
      folded res_def, unfolded wl]
  have top: "cplx out (b * len + t) = sub_dft x (2 * 2 ^ n) h (bitrev n b) t"
    and bot: "cplx out (b * len + t + h) = sub_dft x (2 * 2 ^ n) h (bitrev n b + 2 ^ n) t"
    if "b < 2 ^ n" "t < h" for b t
  proof -
    have e1: "b * len + t = (2 * b) * h + t" by (simp add: len_h)
    have b1: "2 * b < 2 * 2 ^ n" using that(1) by simp
    have r1: "bitrev (Suc n) (2 * b) = bitrev n b" by simp
    show "cplx out (b * len + t) = sub_dft x (2 * 2 ^ n) h (bitrev n b) t"
      unfolding e1 old[OF b1 that(2)] r1 ..
    have e2: "b * len + t + h = (2 * b + 1) * h + t" by (simp add: len_h)
    have b2: "2 * b + 1 < 2 * 2 ^ n" using that(1) by simp
    have r2: "bitrev (Suc n) (2 * b + 1) = bitrev n b + 2 ^ n" by simp
    show "cplx out (b * len + t + h) = sub_dft x (2 * 2 ^ n) h (bitrev n b + 2 ^ n) t"
      unfolding e2 old[OF b2 that(2)] r2 ..
  qed
  have new: "cplx res (b * len + t') = sub_dft x (2 ^ n) len (bitrev n b) t'"
    if b: "b < 2 ^ n" and t': "t' < len" for b t'
  proof (cases "t' < h")
    case True
    have "cplx res (b * len + t') =
        cplx out (b * len + t') + omega (2 * h) ^ t' * cplx out (b * len + t' + h)"
      using B b True by blast
    also have "\<dots> = sub_dft x (2 * 2 ^ n) h (bitrev n b) t'
        + omega (2 * h) ^ t' * sub_dft x (2 * 2 ^ n) h (bitrev n b + 2 ^ n) t'"
      by (simp only: top[OF b True] bot[OF b True])
    also have "\<dots> = sub_dft x (2 ^ n) (2 * h) (bitrev n b) t'"
      by (simp only: sub_dft_split_lo[OF h0])
    finally show ?thesis by (simp only: len_h)
  next
    case False
    define t where "t = t' - h"
    have t: "t < h" and t'_eq: "t' = t + h" using False t' by (simp_all add: t_def len_h)
    have "cplx res (b * len + h + t) =
        cplx out (b * len + t) - omega (2 * h) ^ t * cplx out (b * len + t + h)"
      using B b t by blast
    also have "\<dots> = sub_dft x (2 * 2 ^ n) h (bitrev n b) t
        - omega (2 * h) ^ t * sub_dft x (2 * 2 ^ n) h (bitrev n b + 2 ^ n) t"
      by (simp only: top[OF b t] bot[OF b t])
    also have "\<dots> = sub_dft x (2 ^ n) (2 * h) (bitrev n b) (t + h)"
      by (simp only: sub_dft_split_hi[OF h0])
    finally show ?thesis by (simp add: len_h t'_eq ac_simps)
  qed
  have lr: "length res = 2 ^ k * 2" using B lo by simp
  have "stage_inv x k (s + 1) res"
    unfolding stage_inv_def
  proof (intro conjI allI impI)
    show "length res = 2 ^ k * 2" by (rule lr)
  next
    fix b t :: nat assume "b < 2 ^ (k - (s + 1))" "t < 2 ^ (s + 1)"
    then show "cplx res (b * 2 ^ (s + 1) + t) =
        sub_dft x (2 ^ (k - (s + 1))) (2 ^ (s + 1)) (bitrev (k - (s + 1)) b) t"
      using new[of b t] unfolding n_def len_def by simp
  qed
  then show ?thesis by (simp add: res_def a_def len_def)
qed

paragraph \<open>All stages\<close>

text \<open>
  The lemmas of this subsection are about the loops on naturals. The two theorems about
  the code that follow them carry the bound on the frame size below which the source's
  32-bit shift is that of the naturals.
\<close>

lemma fft_stages_correct:
  assumes "s \<le> k" "stage_inv x k s out"
  shows "stage_inv x k k (fft_stages (2 ^ k) (2 ^ (s + 1)) out)"
  using assms
proof (induction "k - s" arbitrary: s out)
  case 0
  then have "s = k" by simp
  then have "\<not> (2::nat) ^ (s + 1) \<le> 2 ^ k" by simp
  then have "fft_stages (2 ^ k) (2 ^ (s + 1)) out = out"
    by (subst fft_stages.simps) simp
  then show ?case using "0.prems"(2) \<open>s = k\<close> by simp
next
  case (Suc d)
  then have lt: "s < k" by simp
  define out1 where "out1 = fft_blocks (2 ^ k) (2 ^ (s + 1))
      (cos (- 2 * pi / real (2 ^ (s + 1) :: nat))) (sin (- 2 * pi / real (2 ^ (s + 1) :: nat))) 0 out"
  have le: "(2::nat) ^ (s + 1) \<le> 2 ^ k" using lt by (intro power_increasing) simp_all
  have pb: "push_bit 1 ((2::nat) ^ (s + 1)) = 2 ^ (s + 1 + 1)" by (simp add: push_bit_eq_mult)
  have step: "fft_stages (2 ^ k) (2 ^ (s + 1)) out = fft_stages (2 ^ k) (2 ^ (s + 1 + 1)) out1"
    by (subst fft_stages.simps) (simp only: le pb Let_def out1_def zero_less_power zero_less_numeral simp_thms if_True)
  have inv1: "stage_inv x k (s + 1) out1"
    unfolding out1_def by (rule stage_step[OF lt Suc.prems(2)])
  have d: "d = k - (s + 1)" using Suc.hyps(2) by simp
  have "s + 1 \<le> k" using lt by simp
  from Suc.hyps(1)[OF d this inv1] show ?case unfolding step .
qed

lemma stage_inv_initial:
  assumes "length out = 2 ^ k * 2" "\<forall>p<2 ^ k. cplx out p = x (bitrev k p)"
  shows "stage_inv x k 0 out"
  using assms by (simp add: stage_inv_def sub_dft_def)

lemma stage_inv_final:
  assumes "stage_inv x k k out" "t < 2 ^ k"
  shows "cplx out t = (\<Sum>m<2 ^ k. x m * omega (2 ^ k) ^ (t * m))"
  using assms by (simp add: stage_inv_def sub_dft_def)

lemma omega_power_cis:
  "omega n ^ (i * m) = cis (- 2 * pi * real i * real m / real n)"
  by (simp add: omega_def DeMoivre field_simps)

lemma fft_output_correct:
  assumes "length signal = 2 ^ k"
  defines "N \<equiv> length signal"
  defines "final \<equiv> fft_stages N 2 (fft_bitrev N 1 0 (fft_copy signal 0 (replicate (N * 2) 0)))"
  shows "\<forall>t<N. cplx final t = dft signal t"
proof -
  define x where "x = (\<lambda>m. complex_of_real (signal ! m))"
  define out0 where "out0 = fft_copy signal 0 (replicate (N * 2) 0)"
  define out1 where "out1 = fft_bitrev N 1 0 out0"
  have Nk: "N = 2 ^ k" using assms(1) by (simp add: N_def)
  have c0: "length out0 = N * 2" "\<forall>p<N. cplx out0 p = x p"
    using fft_copy_correct[of "replicate (N * 2) 0" signal 0]
    by (simp_all add: out0_def N_def x_def)
  have init: "\<forall>p<N. cplx out0 p = (if min p (bitrev k p) < 1 then x (bitrev k p) else x p)"
  proof (intro allI impI)
    fix p assume p: "p < N"
    show "cplx out0 p = (if min p (bitrev k p) < 1 then x (bitrev k p) else x p)"
    proof (cases "min p (bitrev k p) < 1")
      case True
      then have "p = 0 \<or> bitrev k p = 0" by (auto simp: min_def split: if_splits)
      then have "p = 0"
        using bitrev_involution[of p k] p Nk by auto
      then show ?thesis using c0(2) p by simp
    next
      case False
      then show ?thesis using c0(2) p by (auto simp: min_def)
    qed
  qed
  have N1: "1 \<le> N" using Nk by simp
  have c1: "length out1 = N * 2" "\<forall>p<N. cplx out1 p = x (bitrev k p)"
    using fft_bitrev_correct[OF Nk c0(1) le_refl N1 _ init, of 0]
    by (simp_all add: out1_def c0(1))
  have "stage_inv x k 0 out1"
    using c1 by (intro stage_inv_initial) (simp_all add: Nk)
  from fft_stages_correct[OF _ this]
  have "stage_inv x k k (fft_stages (2 ^ k) 2 out1)" by simp
  then have "\<forall>t<N. cplx (fft_stages N 2 out1) t = (\<Sum>m<N. x m * omega N ^ (t * m))"
    using stage_inv_final[of x k "fft_stages (2 ^ k) 2 out1"] by (simp add: Nk)
  then show ?thesis
    by (simp add: final_def out1_def out0_def dft_def x_def omega_power_cis N_def)
qed

lemma fft_eq_dft_magnitude:
  assumes "length signal = 2 ^ k"
  shows "fft signal = dft_magnitude signal"
proof -
  have "sqrt ((out ! (i * 2))\<^sup>2 + (out ! (i * 2 + 1))\<^sup>2) =
        sqrt ((Re (cplx out i))\<^sup>2 + (Im (cplx out i))\<^sup>2)" for out i
    by (simp add: cplx_def)
  then show ?thesis
    using fft_output_correct[OF assms]
    by (simp add: fft_def dft_magnitude_def Let_def)
qed

text \<open>
  C1: for every frame whose length \<open>N\<close> is a power of two, \<open>fft\<close> returns an array of length
  \<open>N\<close> whose entry \<open>i\<close> is \<open>sqrt(real_i\<^sup>2 + imag_i\<^sup>2)\<close> of bin \<open>i\<close> of the discrete Fourier
  transform of the frame, in exact real arithmetic: the bit-reversal and butterfly loops
  compute the reference transform. The frame has fewer than \<open>2 ^ 30\<close> samples, the range in
  which the 32-bit \<open>length <<= 1\<close> of the source does not wrap and is the shift on naturals.
\<close>

theorem fft_refines_dft:
  assumes "length frame = 2 ^ k" and "k < 30"
  shows "length (fft frame) = length frame \<and>
         (\<forall>i<length frame.
            fft frame ! i = sqrt ((Re (dft frame i))\<^sup>2 + (Im (dft frame i))\<^sup>2))"
  using fft_eq_dft_magnitude[OF assms(1)] by (simp add: dft_magnitude_def)

theorem fft_refines_dft_witness:
  "length (fft [1, 2, 3, 4]) = 4 \<and>
   fft [1, 2, 3, 4] ! 1 =
     sqrt ((Re (dft [1, 2, 3, 4] 1))\<^sup>2 + (Im (dft [1, 2, 3, 4] 1))\<^sup>2)"
  using fft_refines_dft [of "[1, 2, 3, 4]" 2] by simp

text \<open>
  C8: for every power-of-two frame size, the transform of the all-zero frame is the
  all-zero magnitude spectrum. The frame size is below \<open>2 ^ 30\<close>, as for C1.
\<close>

theorem fft_zero_frame:
  assumes "k < 30"
  shows "fft (replicate (2 ^ k) 0) = replicate (2 ^ k) 0"
proof -
  have "dft (replicate (2 ^ k) 0) i = 0" if "i < 2 ^ k" for i
    by (simp add: dft_def)
  then have "dft_magnitude (replicate (2 ^ k) 0) = map (\<lambda>i. 0) [0..<2 ^ k]"
    by (simp add: dft_magnitude_def)
  also have "\<dots> = replicate (2 ^ k) 0" by (simp add: map_replicate_const)
  finally show ?thesis
    using fft_eq_dft_magnitude[of "replicate (2 ^ k) 0" k] by simp
qed

theorem fft_zero_frame_witness:
  "(2::nat) < 30 \<and> fft [0, 0, 0, 0] = [0, 0, 0, 0]"
  using fft_zero_frame [of 2] by (simp add: numeral_eq_Suc)

subsection \<open>The code over the store: what it reads and what it writes\<close>

text \<open>
  Each loop of the transform changes the store at the address of \<open>output\<close> only, and there it
  leaves what the value-passing loop computes. The transform and the frame loops allocate
  fresh arrays and leave every array allocated before as it was, and they return what the
  value-passing functions return on the contents of channel 0.
\<close>

paragraph \<open>The loops of the transform on the store\<close>

lemma array_write_same [simp]: "array_write h a i v a = (h a)[i := v]"
  by (simp add: array_write_def)

lemma array_write_other [simp]: "b \<noteq> a \<Longrightarrow> array_write h a i v b = h b"
  by (simp add: array_write_def)

lemma array_write_upd: "array_write (h(a := xs)) a i v = h(a := xs[i := v])"
  by (simp add: array_write_def)

lemma array_write_eq: "array_write h a i v = h(a := (h a)[i := v])"
  by (simp add: array_write_def)

lemma fft_copy_h_eq:
  assumes "sg \<noteq> out" "N = length (h sg)"
  shows "fft_copy_h sg N i out h = h(out := fft_copy (h sg) i (h out))"
  using assms
proof (induction "N - i" arbitrary: i h)
  case 0
  then have "\<not> i < N" by simp
  then show ?case using "0.prems"
    by (subst fft_copy_h.simps, subst fft_copy.simps) simp
next
  case (Suc d)
  then have lt: "i < N" by simp
  define h1 where "h1 = h(out := (h out)[i * 2 := h sg ! i, i * 2 + 1 := 0])"
  have step: "fft_copy_h sg N i out h = fft_copy_h sg N (i + 1) out h1"
    using lt Suc.prems(1)
    by (subst fft_copy_h.simps) (simp add: Let_def h1_def array_write_eq)
  have d: "d = N - (i + 1)" using Suc.hyps(2) by simp
  have sg1: "h1 sg = h sg" using Suc.prems(1) by (simp add: h1_def)
  have N1: "N = length (h1 sg)" using Suc.prems(2) sg1 by simp
  have pure: "fft_copy (h sg) i (h out) = fft_copy (h sg) (i + 1) (h1 out)"
    using lt Suc.prems(2) by (subst fft_copy.simps) (simp add: h1_def)
  show ?case
    unfolding step Suc.hyps(1)[of "i + 1" h1, OF d Suc.prems(1) N1] sg1 pure
    by (simp add: h1_def)
qed

lemma swap_complex_h_eq:
  "swap_complex_h h out i j = h(out := swap_complex (h out) i j)"
  by (simp add: swap_complex_h_def swap_complex_def Let_def array_write_eq)

lemma fft_bitrev_h_eq:
  "fft_bitrev_h N i j out h = h(out := fft_bitrev N i j (h out))"
proof (induction "N - i" arbitrary: i j h)
  case 0
  then have "\<not> i < N" by simp
  then show ?case by (subst fft_bitrev_h.simps, subst fft_bitrev.simps) simp
next
  case (Suc d)
  then have lt: "i < N" by simp
  have d: "d = N - (i + 1)" using Suc.hyps(2) by simp
  obtain j1 b1 where w: "bitrev_while j (drop_bit 1 N) = (j1, b1)"
    by (cases "bitrev_while j (drop_bit 1 N)")
  show ?case
  proof (cases "i < j1 XOR b1")
    case True
    have "fft_bitrev_h N i j out h =
        fft_bitrev_h N (i + 1) (j1 XOR b1) out (swap_complex_h h out i (j1 XOR b1))"
      using lt w True by (subst fft_bitrev_h.simps) (simp add: Let_def)
    moreover have "fft_bitrev N i j (h out) =
        fft_bitrev N (i + 1) (j1 XOR b1) (swap_complex (h out) i (j1 XOR b1))"
      using lt w True by (subst fft_bitrev.simps) (simp add: Let_def)
    ultimately show ?thesis
      using Suc.hyps(1)[of "i + 1" "j1 XOR b1" "swap_complex_h h out i (j1 XOR b1)", OF d]
      by (simp add: swap_complex_h_eq)
  next
    case False
    have "fft_bitrev_h N i j out h = fft_bitrev_h N (i + 1) (j1 XOR b1) out h"
      using lt w False by (subst fft_bitrev_h.simps) (simp add: Let_def)
    moreover have "fft_bitrev N i j (h out) = fft_bitrev N (i + 1) (j1 XOR b1) (h out)"
      using lt w False by (subst fft_bitrev.simps) (simp add: Let_def)
    ultimately show ?thesis
      using Suc.hyps(1)[of "i + 1" "j1 XOR b1" h, OF d] by simp
  qed
qed

lemma fft_butterflies_h_eq:
  "fft_butterflies_h len wlr wli i j out h wr wi =
     h(out := fft_butterflies len wlr wli i j (h out) wr wi)"
proof (induction "len div 2 - j" arbitrary: j h wr wi)
  case 0
  then have "\<not> j < len div 2" by simp
  then show ?case by (subst fft_butterflies_h.simps, subst fft_butterflies.simps) simp
next
  case (Suc d)
  then have lt: "j < len div 2" by simp
  have d: "d = len div 2 - (j + 1)" using Suc.hyps(2) by simp
  define xs where "xs = h out"
  define u_real where "u_real = xs ! ((i + j) * 2)"
  define u_imag where "u_imag = xs ! ((i + j) * 2 + 1)"
  define v_real where "v_real = xs ! ((i + j + len div 2) * 2) * wr
                         - xs ! ((i + j + len div 2) * 2 + 1) * wi"
  define v_imag where "v_imag = xs ! ((i + j + len div 2) * 2) * wi
                         + xs ! ((i + j + len div 2) * 2 + 1) * wr"
  define xs1 where "xs1 = xs[(i + j) * 2 := u_real + v_real,
      (i + j) * 2 + 1 := u_imag + v_imag,
      (i + j + len div 2) * 2 := u_real - v_real,
      (i + j + len div 2) * 2 + 1 := u_imag - v_imag]"
  define wr' where "wr' = wr * wlr - wi * wli"
  define wi' where "wi' = wr * wli + wi * wlr"
  have step_h: "fft_butterflies_h len wlr wli i j out h wr wi =
      fft_butterflies_h len wlr wli i (j + 1) out (h(out := xs1)) wr' wi'"
    using lt
    by (subst fft_butterflies_h.simps)
      (simp add: Let_def array_write_eq xs1_def xs_def u_real_def u_imag_def v_real_def
        v_imag_def wr'_def wi'_def)
  have step_p: "fft_butterflies len wlr wli i j (h out) wr wi =
      fft_butterflies len wlr wli i (j + 1) xs1 wr' wi'"
    using lt
    by (subst fft_butterflies.simps)
      (simp add: Let_def xs1_def xs_def u_real_def u_imag_def v_real_def
        v_imag_def wr'_def wi'_def)
  show ?case
    unfolding step_h step_p Suc.hyps(1)[of "j + 1" "h(out := xs1)" wr' wi', OF d]
    by simp
qed

lemma fft_blocks_h_eq:
  "fft_blocks_h N len wlr wli i out h = h(out := fft_blocks N len wlr wli i (h out))"
proof (induction "N - i" arbitrary: i h rule: less_induct)
  case less
  show ?case
  proof (cases "0 < len \<and> i < N")
    case True
    define xs1 where "xs1 = fft_butterflies len wlr wli i 0 (h out) 1 0"
    have step_h: "fft_blocks_h N len wlr wli i out h =
        fft_blocks_h N len wlr wli (i + len) out (h(out := xs1))"
      using True by (subst fft_blocks_h.simps) (simp add: fft_butterflies_h_eq xs1_def)
    have step_p: "fft_blocks N len wlr wli i (h out) = fft_blocks N len wlr wli (i + len) xs1"
      using True by (subst fft_blocks.simps) (simp add: xs1_def)
    have "N - (i + len) < N - i" using True by arith
    from less[OF this, of "h(out := xs1)"] show ?thesis
      unfolding step_h step_p by simp
  next
    case False
    then show ?thesis by (subst fft_blocks_h.simps, subst fft_blocks.simps) auto
  qed
qed

lemma fft_stages_h_eq:
  "fft_stages_h N len out h = h(out := fft_stages N len (h out))"
proof (induction "Suc N - len" arbitrary: len h rule: less_induct)
  case less
  show ?case
  proof (cases "0 < len \<and> len \<le> N")
    case True
    define xs1 where "xs1 = fft_blocks N len (cos (- 2 * pi / real len))
        (sin (- 2 * pi / real len)) 0 (h out)"
    have step_h: "fft_stages_h N len out h = fft_stages_h N (push_bit 1 len) out (h(out := xs1))"
      using True
      by (subst fft_stages_h.simps) (simp only: if_True Let_def fft_blocks_h_eq xs1_def simp_thms)
    have step_p: "fft_stages N len (h out) = fft_stages N (push_bit 1 len) xs1"
      using True by (subst fft_stages.simps) (simp only: if_True Let_def xs1_def simp_thms)
    have "push_bit 1 len = len * 2" by (simp add: push_bit_eq_mult)
    then have "Suc N - push_bit 1 len < Suc N - len" using True by arith
    from less[OF this, of "h(out := xs1)"] show ?thesis
      unfolding step_h step_p by simp
  next
    case False
    then show ?thesis by (subst fft_stages_h.simps, subst fft_stages.simps) auto
  qed
qed

lemma fft_magnitude_h_eq:
  assumes "out \<noteq> m" "length (h m) = N" "i \<le> N"
  shows "fft_magnitude_h N i out m h =
     h(m := take i (h m) @
             map (\<lambda>k. sqrt ((h out ! (k * 2))\<^sup>2 + (h out ! (k * 2 + 1))\<^sup>2)) [i..<N])"
  using assms
proof (induction "N - i" arbitrary: i h)
  case 0
  then have "\<not> i < N" "i = N" by simp_all
  then show ?case using "0.prems" by (subst fft_magnitude_h.simps) simp
next
  case (Suc d)
  then have lt: "i < N" by simp
  define v where "v = sqrt ((h out ! (i * 2))\<^sup>2 + (h out ! (i * 2 + 1))\<^sup>2)"
  define h1 where "h1 = h(m := (h m)[i := v])"
  have step: "fft_magnitude_h N i out m h = fft_magnitude_h N (i + 1) out m h1"
    using lt by (subst fft_magnitude_h.simps) (simp add: h1_def v_def array_write_eq)
  have d: "d = N - (i + 1)" using Suc.hyps(2) by simp
  have o1: "h1 out = h out" using Suc.prems(1) by (simp add: h1_def)
  have l1: "length (h1 m) = N" using Suc.prems(2) by (simp add: h1_def)
  have i1: "i + 1 \<le> N" using lt by simp
  have tk: "take (i + 1) (h1 m) = take i (h m) @ [v]"
    using lt Suc.prems(2) by (simp add: h1_def take_Suc_conv_app_nth)
  have up: "[i..<N] = i # [i + 1..<N]" using lt by (simp add: upt_conv_Cons)
  show ?case
    unfolding step Suc.hyps(1)[of "i + 1" h1, OF d Suc.prems(1) l1 i1] o1 tk up
    by (simp add: h1_def v_def)
qed

paragraph \<open>Allocation and the transform\<close>

lemma store_extends_refl: "store_extends s s"
  by (simp add: store_extends_def)

lemma store_extends_trans:
  "store_extends s s' \<Longrightarrow> store_extends s' s'' \<Longrightarrow> store_extends s s''"
  by (auto simp: store_extends_def)

lemma allocated_extends:
  "store_extends s s' \<Longrightarrow> allocated s a \<Longrightarrow> allocated s' a"
  by (auto simp: store_extends_def allocated_def)

lemma extends_contents:
  "store_extends s s' \<Longrightarrow> allocated s a \<Longrightarrow> arrays s' (arr_addr a) = arrays s (arr_addr a)"
  by (auto simp: store_extends_def allocated_def)

lemma fft_st_correct:
  assumes "allocated s signal"
  shows "allocated (snd (fft_st signal s)) (fst (fft_st signal s))"
    and "arr_len (fst (fft_st signal s)) = arr_len signal"
    and "arrays (snd (fft_st signal s)) (arr_addr (fst (fft_st signal s))) =
           fft (arrays s (arr_addr signal))"
    and "store_extends s (snd (fft_st signal s))"
proof -
  define N where "N = arr_len signal"
  define sg where "sg = arr_addr signal"
  define n where "n = next_free s"
  define h0 where "h0 = (arrays s)(n := replicate (N * 2) 0)"
  define out where "out = fft_stages N 2 (fft_bitrev N 1 0 (fft_copy (arrays s sg) 0 (replicate (N * 2) 0)))"
  have sgn: "sg \<noteq> n" "sg < n" and lN: "length (arrays s sg) = N"
    using assms by (simp_all add: allocated_def sg_def n_def N_def)
  have h0sg: "h0 sg = arrays s sg" using sgn by (simp add: h0_def)
  have copy: "fft_copy_h sg N 0 n h0 = h0(n := fft_copy (arrays s sg) 0 (replicate (N * 2) 0))"
    using fft_copy_h_eq[OF sgn(1), of N h0 0] lN h0sg by (simp add: h0_def)
  have h3: "fft_stages_h N 2 n (fft_bitrev_h N 1 0 n (fft_copy_h sg N 0 n h0)) = (arrays s)(n := out)"
    unfolding copy fft_bitrev_h_eq fft_stages_h_eq by (simp add: out_def h0_def)
  define h4 where "h4 = ((arrays s)(n := out))(Suc n := replicate N 0)"
  have mag: "fft_magnitude_h N 0 n (Suc n) h4 =
      h4(Suc n := map (\<lambda>k. sqrt ((out ! (k * 2))\<^sup>2 + (out ! (k * 2 + 1))\<^sup>2)) [0..<N])"
    using fft_magnitude_h_eq[of n "Suc n" h4 N 0] by (simp add: h4_def)
  have res: "fft_st signal s =
      (\<lparr> arr_addr = Suc n, arr_len = N \<rparr>,
       \<lparr> arrays = h4(Suc n := map (\<lambda>k. sqrt ((out ! (k * 2))\<^sup>2 + (out ! (k * 2 + 1))\<^sup>2)) [0..<N]),
         next_free = Suc (Suc n) \<rparr>)"
    using h3 mag unfolding fft_st_def new_Float32Array_def Let_def
    by (simp add: N_def[symmetric] sg_def[symmetric] n_def[symmetric] h0_def[symmetric]
        h4_def[symmetric])
  have fftv: "fft (arrays s sg) = map (\<lambda>k. sqrt ((out ! (k * 2))\<^sup>2 + (out ! (k * 2 + 1))\<^sup>2)) [0..<N]"
    by (simp add: fft_def Let_def lN out_def)
  show "allocated (snd (fft_st signal s)) (fst (fft_st signal s))"
    by (simp add: res allocated_def)
  show "arr_len (fst (fft_st signal s)) = arr_len signal"
    by (simp add: res N_def)
  show "arrays (snd (fft_st signal s)) (arr_addr (fst (fft_st signal s))) =
           fft (arrays s (arr_addr signal))"
    using fftv by (simp add: res sg_def)
  show "store_extends s (snd (fft_st signal s))"
    by (simp add: res store_extends_def h4_def n_def)
qed

lemma slice_st_correct:
  shows "allocated (snd (slice_st a st e s)) (fst (slice_st a st e s))"
    and "arrays (snd (slice_st a st e s)) (arr_addr (fst (slice_st a st e s))) =
           slice (arrays s (arr_addr a)) st e"
    and "store_extends s (snd (slice_st a st e s))"
  by (simp_all add: slice_st_def Let_def allocated_def store_extends_def)

paragraph \<open>The frame loops\<close>

lemma frame_fft_step:
  assumes "allocated s ch"
    and "slice_st ch i e s = (frame, s1)" and "fft_st frame s1 = (mag, s2)"
  shows "arrays s2 (arr_addr mag) = fft (slice (arrays s (arr_addr ch)) i e)"
    and "arr_len mag = length (fft (slice (arrays s (arr_addr ch)) i e))"
    and "store_extends s s2"
    and "allocated s2 ch"
proof -
  have f1: "allocated s1 frame" "arrays s1 (arr_addr frame) = slice (arrays s (arr_addr ch)) i e"
    "store_extends s s1"
    using slice_st_correct[where a=ch and st=i and e=e and s=s] assms(2) by simp_all
  have f2: "allocated s2 mag" "arr_len mag = arr_len frame"
    "arrays s2 (arr_addr mag) = fft (arrays s1 (arr_addr frame))" "store_extends s1 s2"
    using fft_st_correct[OF f1(1)] assms(3) by simp_all
  show "arrays s2 (arr_addr mag) = fft (slice (arrays s (arr_addr ch)) i e)"
    using f2(3) f1(2) by simp
  show "arr_len mag = length (fft (slice (arrays s (arr_addr ch)) i e))"
    using f2(1,3) f1(2) by (simp add: allocated_def)
  show ext: "store_extends s s2" by (rule store_extends_trans[OF f1(3) f2(4)])
  show "allocated s2 ch" by (rule allocated_extends[OF ext assms(1)])
qed

lemma centroid_frames_st_correct:
  assumes "allocated s ch"
  shows "fst (centroid_frames_st ch sr i t c s) = centroid_frames (arrays s (arr_addr ch)) sr i t c \<and>
         store_extends s (snd (centroid_frames_st ch sr i t c s))"
  using assms
proof (induction "arr_len ch - i" arbitrary: i t c s rule: less_induct)
  case less
  let ?xs = "arrays s (arr_addr ch)"
  have len: "length ?xs = arr_len ch" using less.prems by (simp add: allocated_def)
  show ?case
  proof (cases "int i < int (arr_len ch) - 2048")
    case True
    obtain frame s1 where sl: "slice_st ch i (i + 2048) s = (frame, s1)"
      by (cases "slice_st ch i (i + 2048) s")
    obtain mag s2 where ff: "fft_st frame s1 = (mag, s2)" by (cases "fft_st frame s1")
    note F = frame_fft_step[OF less.prems sl ff]
    obtain ws ms where cb: "centroid_bins (fft (slice ?xs i (i + 2048))) sr 0 0 0 = (ws, ms)"
      by (cases "centroid_bins (fft (slice ?xs i (i + 2048))) sr 0 0 0")
    have dec: "arr_len ch - (i + 512) < arr_len ch - i" using True by arith
    have same: "arrays s2 (arr_addr ch) = ?xs"
      by (rule extends_contents[OF F(3) less.prems])
    show ?thesis
    proof (cases "ms > 0")
      case pos: True
      have st: "centroid_frames_st ch sr i t c s =
          centroid_frames_st ch sr (i + 512) (t + ws / ms) (c + 1) s2"
        using True pos by (subst centroid_frames_st.simps) (simp add: sl ff F(1) cb)
      have pu: "centroid_frames ?xs sr i t c = centroid_frames ?xs sr (i + 512) (t + ws / ms) (c + 1)"
        using True pos len by (subst centroid_frames.simps) (simp add: cb)
      from less.hyps[OF dec F(4), of "t + ws / ms" "c + 1"] show ?thesis
        unfolding st pu same using F(3) by (auto intro: store_extends_trans)
    next
      case npos: False
      have st: "centroid_frames_st ch sr i t c s = centroid_frames_st ch sr (i + 512) t c s2"
        using True npos by (subst centroid_frames_st.simps) (simp add: sl ff F(1) cb)
      have pu: "centroid_frames ?xs sr i t c = centroid_frames ?xs sr (i + 512) t c"
        using True npos len by (subst centroid_frames.simps) (simp add: cb)
      from less.hyps[OF dec F(4), of t c] show ?thesis
        unfolding st pu same using F(3) by (auto intro: store_extends_trans)
    qed
  next
    case False
    then show ?thesis using len
      by (subst (1 2) centroid_frames_st.simps, subst centroid_frames.simps)
        (simp add: store_extends_refl)
  qed
qed

lemma mfcc_frames_st_correct:
  assumes "allocated s ch"
  shows "fst (mfcc_frames_st ch sr i fs s) = mfcc_frames (arrays s (arr_addr ch)) sr i fs \<and>
         store_extends s (snd (mfcc_frames_st ch sr i fs s))"
  using assms
proof (induction "arr_len ch - i" arbitrary: i fs s rule: less_induct)
  case less
  let ?xs = "arrays s (arr_addr ch)"
  have len: "length ?xs = arr_len ch" using less.prems by (simp add: allocated_def)
  show ?case
  proof (cases "int i < int (arr_len ch) - 1024")
    case True
    obtain frame s1 where sl: "slice_st ch i (i + 1024) s = (frame, s1)"
      by (cases "slice_st ch i (i + 1024) s")
    obtain mag s2 where ff: "fft_st frame s1 = (mag, s2)" by (cases "fft_st frame s1")
    note F = frame_fft_step[OF less.prems sl ff]
    define fs1 where "fs1 = mfcc_coeffs sr (length (fft (slice ?xs i (i + 1024)))) 0 fs"
    have dec: "arr_len ch - (i + 512) < arr_len ch - i" using True by arith
    have same: "arrays s2 (arr_addr ch) = ?xs"
      by (rule extends_contents[OF F(3) less.prems])
    have st: "mfcc_frames_st ch sr i fs s = mfcc_frames_st ch sr (i + 512) fs1 s2"
      using True by (subst mfcc_frames_st.simps) (simp add: sl ff F(2) fs1_def)
    have pu: "mfcc_frames ?xs sr i fs = mfcc_frames ?xs sr (i + 512) fs1"
      using True len by (subst mfcc_frames.simps) (simp add: fs1_def Let_def)
    from less.hyps[OF dec F(4), of fs1] show ?thesis
      unfolding st pu same using F(3) by (auto intro: store_extends_trans)
  next
    case False
    then show ?thesis using len
      by (subst (1 2) mfcc_frames_st.simps, subst mfcc_frames.simps)
        (simp add: store_extends_refl)
  qed
qed

lemma polyphony_frames_st_correct:
  assumes "allocated s ch"
  shows "fst (polyphony_frames_st ch i p t s) = polyphony_frames (arrays s (arr_addr ch)) i p t \<and>
         store_extends s (snd (polyphony_frames_st ch i p t s))"
  using assms
proof (induction "arr_len ch - i" arbitrary: i p t s rule: less_induct)
  case less
  let ?xs = "arrays s (arr_addr ch)"
  have len: "length ?xs = arr_len ch" using less.prems by (simp add: allocated_def)
  show ?case
  proof (cases "int i < int (arr_len ch) - 2048")
    case True
    obtain frame s1 where sl: "slice_st ch i (i + 2048) s = (frame, s1)"
      by (cases "slice_st ch i (i + 2048) s")
    obtain mag s2 where ff: "fft_st frame s1 = (mag, s2)" by (cases "fft_st frame s1")
    note F = frame_fft_step[OF less.prems sl ff]
    define m where "m = fft (slice ?xs i (i + 2048))"
    define pk where "pk = peak_loop m (Math_max m * 0.1) 1 0"
    have dec: "arr_len ch - (i + 512) < arr_len ch - i" using True by arith
    have same: "arrays s2 (arr_addr ch) = ?xs"
      by (rule extends_contents[OF F(3) less.prems])
    have st: "polyphony_frames_st ch i p t s =
        (if pk > 3 then polyphony_frames_st ch (i + 512) (p + 1) (t + 1) s2
         else polyphony_frames_st ch (i + 512) p (t + 1) s2)"
      by (subst polyphony_frames_st.simps)
        (simp only: True if_True sl ff F(1) Let_def prod.case pk_def m_def)
    have pu: "polyphony_frames ?xs i p t =
        (if pk > 3 then polyphony_frames ?xs (i + 512) (p + 1) (t + 1)
         else polyphony_frames ?xs (i + 512) p (t + 1))"
      using True unfolding len[symmetric]
      by (subst polyphony_frames.simps) (simp only: if_True Let_def pk_def m_def)
    show ?thesis
    proof (cases "pk > 3")
      case True
      from less.hyps[OF dec F(4), of "p + 1" "t + 1"] show ?thesis
        unfolding st pu same using F(3) True by (auto intro: store_extends_trans)
    next
      case False
      from less.hyps[OF dec F(4), of p "t + 1"] show ?thesis
        unfolding st pu same using F(3) False by (auto intro: store_extends_trans)
    qed
  next
    case False
    then show ?thesis using len
      by (subst (1 2) polyphony_frames_st.simps, subst polyphony_frames.simps)
        (simp add: store_extends_refl)
  qed
qed

paragraph \<open>The four analysis functions\<close>

lemma buffer_allocated_channel0:
  "buffer_allocated s b \<Longrightarrow> allocated s (getChannelData_st b 0)"
  by (simp add: buffer_allocated_def getChannelData_st_def)

lemma getChannelData_buffer_of:
  "getChannelData (buffer_of s b) 0 = arrays s (arr_addr (getChannelData_st b 0))"
  by (simp add: getChannelData_def getChannelData_st_def buffer_of_def)

lemma buffer_of_extends:
  assumes "store_extends s s'" "buffer_allocated s b"
  shows "buffer_of s' b = buffer_of s b"
proof -
  have "arrays s' (arr_addr a) = arrays s (arr_addr a)"
    if "a \<in> set (ref_channel0 b # ref_otherChannels b)" for a
    using that assms by (auto simp: buffer_allocated_def list_all_iff intro: extends_contents)
  then show ?thesis by (simp add: buffer_of_def)
qed

lemma calculateSpectralCentroid_st_correct:
  assumes "buffer_allocated s b"
  shows "fst (calculateSpectralCentroid_st b s) = calculateSpectralCentroid (buffer_of s b)"
    and "store_extends s (snd (calculateSpectralCentroid_st b s))"
proof -
  let ?ch = "getChannelData_st b 0"
  note C = centroid_frames_st_correct[OF buffer_allocated_channel0[OF assms],
      of "ref_sampleRate b" 0 0 0]
  obtain t c s' where r: "centroid_frames_st ?ch (ref_sampleRate b) 0 0 0 s = ((t, c), s')"
    by (cases "centroid_frames_st ?ch (ref_sampleRate b) 0 0 0 s") auto
  have sr: "AudioBuffer.sampleRate (buffer_of s b) = ref_sampleRate b"
    by (simp add: buffer_of_def)
  show "fst (calculateSpectralCentroid_st b s) = calculateSpectralCentroid (buffer_of s b)"
    using C r
    by (simp add: calculateSpectralCentroid_st_def calculateSpectralCentroid_def Let_def
        getChannelData_buffer_of sr split: prod.splits)
  show "store_extends s (snd (calculateSpectralCentroid_st b s))"
    using C r by (simp add: calculateSpectralCentroid_st_def Let_def split: prod.splits)
qed

lemma calculateZeroCrossingRate_st_correct:
  assumes "buffer_allocated s b"
  shows "fst (calculateZeroCrossingRate_st b s) = calculateZeroCrossingRate (buffer_of s b)"
    and "store_extends s (snd (calculateZeroCrossingRate_st b s))"
proof -
  have "length (arrays s (arr_addr (getChannelData_st b 0))) = arr_len (getChannelData_st b 0)"
    using buffer_allocated_channel0[OF assms] by (simp add: allocated_def)
  then show "fst (calculateZeroCrossingRate_st b s) = calculateZeroCrossingRate (buffer_of s b)"
    by (simp add: calculateZeroCrossingRate_st_def calculateZeroCrossingRate_def Let_def
        getChannelData_buffer_of)
  show "store_extends s (snd (calculateZeroCrossingRate_st b s))"
    by (simp add: calculateZeroCrossingRate_st_def Let_def store_extends_refl)
qed

lemma calculateMFCC_st_correct:
  assumes "buffer_allocated s b"
  shows "fst (calculateMFCC_st b s) = calculateMFCC (buffer_of s b)"
    and "store_extends s (snd (calculateMFCC_st b s))"
proof -
  let ?ch = "getChannelData_st b 0"
  note C = mfcc_frames_st_correct[OF buffer_allocated_channel0[OF assms],
      of "ref_sampleRate b" 0 "[]"]
  obtain fs s' where r: "mfcc_frames_st ?ch (ref_sampleRate b) 0 [] s = (fs, s')"
    by (cases "mfcc_frames_st ?ch (ref_sampleRate b) 0 [] s")
  have sr: "AudioBuffer.sampleRate (buffer_of s b) = ref_sampleRate b"
    by (simp add: buffer_of_def)
  show "fst (calculateMFCC_st b s) = calculateMFCC (buffer_of s b)"
    using C r
    by (simp add: calculateMFCC_st_def calculateMFCC_def Let_def getChannelData_buffer_of sr)
  show "store_extends s (snd (calculateMFCC_st b s))"
    using C r by (simp add: calculateMFCC_st_def Let_def)
qed

lemma detectPolyphony_st_correct:
  assumes "buffer_allocated s b"
  shows "fst (detectPolyphony_st b s) = detectPolyphony (buffer_of s b)"
    and "store_extends s (snd (detectPolyphony_st b s))"
proof -
  let ?ch = "getChannelData_st b 0"
  note C = polyphony_frames_st_correct[OF buffer_allocated_channel0[OF assms], of 0 0 0]
  obtain p t s' where r: "polyphony_frames_st ?ch 0 0 0 s = ((p, t), s')"
    by (cases "polyphony_frames_st ?ch 0 0 0 s") auto
  show "fst (detectPolyphony_st b s) = detectPolyphony (buffer_of s b)"
    using C r
    by (simp add: detectPolyphony_st_def detectPolyphony_def Let_def getChannelData_buffer_of
        split: prod.splits)
  show "store_extends s (snd (detectPolyphony_st b s))"
    using C r by (simp add: detectPolyphony_st_def Let_def split: prod.splits)
qed

paragraph \<open>The example buffers\<close>

lemma example_allocated:
  "buffer_allocated example_store_mono example_buffer_mono"
  "buffer_allocated example_store_stereo example_buffer_stereo"
  by (simp_all add: buffer_allocated_def allocated_def example_store_mono_def
      example_buffer_mono_def example_store_stereo_def example_buffer_stereo_def
      example_channel_def)

lemma example_analyses_a_frame:
  "length (fst (calculateMFCC_st example_buffer_mono example_store_mono)) = 13"
proof -
  have "length (getChannelData (buffer_of example_store_mono example_buffer_mono) 0) = 2049"
    by (simp add: getChannelData_buffer_of getChannelData_st_def example_store_mono_def
        example_buffer_mono_def example_channel_def)
  then show ?thesis
    by (simp add: calculateMFCC_st_correct[OF example_allocated(1)] calculateMFCC_value)
qed

text \<open>
  C9: each analysis function depends only on the samples of channel 0 and on the sample
  rate, and does not change the buffer it is given. For two buffer objects, in any two
  stores, whose channel 0 holds the same samples and whose sample rates are equal, each of
  the four functions returns the same result, whatever the other channels, the durations,
  the addresses and the rest of the stores are; and after each call the buffer read from
  the resulting store is the buffer read from the store before the call. The functions
  do write: every call that analyses a frame allocates and fills arrays of its own.
\<close>

theorem analysis_reads_channel0_only:
  assumes "buffer_allocated s1 b1" and "buffer_allocated s2 b2"
    and "arrays s1 (arr_addr (getChannelData_st b1 0)) =
         arrays s2 (arr_addr (getChannelData_st b2 0))"
    and "ref_sampleRate b1 = ref_sampleRate b2"
  shows "fst (calculateSpectralCentroid_st b1 s1) = fst (calculateSpectralCentroid_st b2 s2) \<and>
         fst (calculateZeroCrossingRate_st b1 s1) = fst (calculateZeroCrossingRate_st b2 s2) \<and>
         fst (calculateMFCC_st b1 s1) = fst (calculateMFCC_st b2 s2) \<and>
         fst (detectPolyphony_st b1 s1) = fst (detectPolyphony_st b2 s2) \<and>
         buffer_of (snd (calculateSpectralCentroid_st b1 s1)) b1 = buffer_of s1 b1 \<and>
         buffer_of (snd (calculateZeroCrossingRate_st b1 s1)) b1 = buffer_of s1 b1 \<and>
         buffer_of (snd (calculateMFCC_st b1 s1)) b1 = buffer_of s1 b1 \<and>
         buffer_of (snd (detectPolyphony_st b1 s1)) b1 = buffer_of s1 b1 \<and>
         buffer_of (snd (calculateSpectralCentroid_st b2 s2)) b2 = buffer_of s2 b2 \<and>
         buffer_of (snd (calculateZeroCrossingRate_st b2 s2)) b2 = buffer_of s2 b2 \<and>
         buffer_of (snd (calculateMFCC_st b2 s2)) b2 = buffer_of s2 b2 \<and>
         buffer_of (snd (detectPolyphony_st b2 s2)) b2 = buffer_of s2 b2"
proof -
  have ch: "getChannelData (buffer_of s1 b1) 0 = getChannelData (buffer_of s2 b2) 0"
    using assms(3) by (simp add: getChannelData_buffer_of)
  have sr: "AudioBuffer.sampleRate (buffer_of s1 b1) = AudioBuffer.sampleRate (buffer_of s2 b2)"
    using assms(4) by (simp add: buffer_of_def)
  note P = pure_analysis_depends_on_channel0[OF ch sr]
  show ?thesis
    using P
    by (simp add: calculateSpectralCentroid_st_correct[OF assms(1)]
        calculateSpectralCentroid_st_correct[OF assms(2)]
        calculateZeroCrossingRate_st_correct[OF assms(1)]
        calculateZeroCrossingRate_st_correct[OF assms(2)]
        calculateMFCC_st_correct[OF assms(1)] calculateMFCC_st_correct[OF assms(2)]
        detectPolyphony_st_correct[OF assms(1)] detectPolyphony_st_correct[OF assms(2)]
        buffer_of_extends[OF _ assms(1)] buffer_of_extends[OF _ assms(2)])
qed

theorem analysis_reads_channel0_only_witness:
  "length (fst (calculateMFCC_st example_buffer_mono example_store_mono)) = 13 \<and>
   fst (calculateSpectralCentroid_st example_buffer_mono example_store_mono) =
     fst (calculateSpectralCentroid_st example_buffer_stereo example_store_stereo) \<and>
   fst (calculateZeroCrossingRate_st example_buffer_mono example_store_mono) =
     fst (calculateZeroCrossingRate_st example_buffer_stereo example_store_stereo) \<and>
   fst (calculateMFCC_st example_buffer_mono example_store_mono) =
     fst (calculateMFCC_st example_buffer_stereo example_store_stereo) \<and>
   fst (detectPolyphony_st example_buffer_mono example_store_mono) =
     fst (detectPolyphony_st example_buffer_stereo example_store_stereo) \<and>
   buffer_of (snd (calculateSpectralCentroid_st example_buffer_stereo example_store_stereo))
     example_buffer_stereo = buffer_of example_store_stereo example_buffer_stereo \<and>
   buffer_of (snd (calculateZeroCrossingRate_st example_buffer_stereo example_store_stereo))
     example_buffer_stereo = buffer_of example_store_stereo example_buffer_stereo \<and>
   buffer_of (snd (calculateMFCC_st example_buffer_stereo example_store_stereo))
     example_buffer_stereo = buffer_of example_store_stereo example_buffer_stereo \<and>
   buffer_of (snd (detectPolyphony_st example_buffer_stereo example_store_stereo))
     example_buffer_stereo = buffer_of example_store_stereo example_buffer_stereo"
proof -
  have ch: "arrays example_store_mono (arr_addr (getChannelData_st example_buffer_mono 0)) =
      arrays example_store_stereo (arr_addr (getChannelData_st example_buffer_stereo 0))"
    by (simp add: getChannelData_st_def example_store_mono_def example_buffer_mono_def
        example_store_stereo_def example_buffer_stereo_def)
  have sr: "ref_sampleRate example_buffer_mono = ref_sampleRate example_buffer_stereo"
    by (simp add: example_buffer_mono_def example_buffer_stereo_def)
  show ?thesis
    using analysis_reads_channel0_only [OF example_allocated ch sr] example_analyses_a_frame
    by simp
qed

end
